theory Spec2Isabelle
  imports Main
begin

section \<open>Python strings and lists\<close>

text \<open>
  A Python \<open>str\<close> is a sequence of Unicode code points; the width rule of the layout
  engine looks at code points far beyond one byte, so a string is a list of code points
  here. \<open>str\<close> turns an ASCII literal into that representation.
\<close>

type_synonym ustr = "nat list"

definition str :: "string \<Rightarrow> ustr" where
  "str s = map of_char s"

datatype py_error = IndexError | KeyError | ValueError

text \<open>\<open>s.startswith(p)\<close>.\<close>

definition startswith :: "'a list \<Rightarrow> 'a list \<Rightarrow> bool" where
  "startswith s p = (take (length p) s = p)"

text \<open>\<open>p in s\<close> for strings: \<open>p\<close> occurs as a contiguous slice of \<open>s\<close>.\<close>

fun contains :: "'a list \<Rightarrow> 'a list \<Rightarrow> bool" where
  "contains [] p = (p = [])"
| "contains (x # xs) p = (startswith (x # xs) p \<or> contains xs p)"

text \<open>
  The characters \<open>str.isspace\<close> accepts; \<open>str.strip()\<close> without argument removes
  them from both ends, and the regular expression class \<open>\s\<close> matches the same set.
\<close>

definition isspace :: "nat \<Rightarrow> bool" where
  "isspace c = ((9 \<le> c \<and> c \<le> 13) \<or> (28 \<le> c \<and> c \<le> 32) \<or> c = 133 \<or> c = 160
     \<or> c = 5760 \<or> (8192 \<le> c \<and> c \<le> 8202) \<or> c = 8232 \<or> c = 8233 \<or> c = 8239
     \<or> c = 8287 \<or> c = 12288)"

definition lstrip :: "ustr \<Rightarrow> ustr" where
  "lstrip s = dropWhile isspace s"

definition rstrip :: "ustr \<Rightarrow> ustr" where
  "rstrip s = rev (dropWhile isspace (rev s))"

definition strip :: "ustr \<Rightarrow> ustr" where
  "strip s = rstrip (lstrip s)"

text \<open>
  \<open>s.split(sep)\<close> for a separator of one character: the result is never empty, and
  two adjacent separators give an empty piece.
\<close>

fun split_on :: "'a \<Rightarrow> 'a list \<Rightarrow> 'a list list" where
  "split_on c [] = [[]]"
| "split_on c (x # xs) =
     (if x = c then [] # split_on c xs
      else (case split_on c xs of [] \<Rightarrow> [[x]] | w # ws \<Rightarrow> (x # w) # ws))"

text \<open>\<open>sep.join(parts)\<close>.\<close>

fun join :: "'a list \<Rightarrow> 'a list list \<Rightarrow> 'a list" where
  "join sep [] = []"
| "join sep [x] = x"
| "join sep (x # y # ys) = x @ sep @ join sep (y # ys)"

text \<open>
  \<open>s.replace(old, new)\<close>: occurrences are replaced from the left and do not overlap;
  an empty \<open>old\<close> matches before every character and at the end.
\<close>

function replace_ne :: "'a list \<Rightarrow> 'a list \<Rightarrow> 'a list \<Rightarrow> 'a list" where
  "replace_ne old new s =
     (if old = [] \<or> s = [] then s
      else if startswith s old then new @ replace_ne old new (drop (length old) s)
      else hd s # replace_ne old new (tl s))"
  by pat_completeness auto
termination
  by (relation "measure (\<lambda>(old, new, s). length s)") auto

definition replace :: "'a list \<Rightarrow> 'a list \<Rightarrow> 'a list \<Rightarrow> 'a list" where
  "replace old new s =
     (if old = [] then new @ concat (map (\<lambda>c. c # new) s) else replace_ne old new s)"

text \<open>\<open>s.count(c)\<close> for one character.\<close>

definition count_char :: "'a \<Rightarrow> 'a list \<Rightarrow> nat" where
  "count_char c s = length (filter (\<lambda>x. x = c) s)"

text \<open>
  Indexing a Python list: a negative index counts from the end, and an index outside
  the list raises \<open>IndexError\<close>.
\<close>

definition py_index :: "'a list \<Rightarrow> int \<Rightarrow> py_error + 'a" where
  "py_index xs i =
     (if 0 \<le> i \<and> i < int (length xs) then Inr (xs ! nat i)
      else if i < 0 \<and> - int (length xs) \<le> i then Inr (xs ! nat (int (length xs) + i))
      else Inl IndexError)"

text \<open>
  A slice \<open>xs[i:j]\<close> with the bounds given as Python integers: a negative bound counts
  from the end, and bounds are clipped to the list.
\<close>

definition clip :: "'a list \<Rightarrow> int \<Rightarrow> nat" where
  "clip xs i = (let n = int (length xs) in
     if i < 0 then nat (max 0 (n + i)) else nat (min n i))"

definition slice :: "'a list \<Rightarrow> int \<Rightarrow> int \<Rightarrow> 'a list" where
  "slice xs i j = take (clip xs j - clip xs i) (drop (clip xs i) xs)"

definition slice_to :: "'a list \<Rightarrow> int \<Rightarrow> 'a list" where
  "slice_to xs j = take (clip xs j) xs"

definition slice_from :: "'a list \<Rightarrow> int \<Rightarrow> 'a list" where
  "slice_from xs i = drop (clip xs i) xs"

definition newline :: nat where
  "newline = 10"

section \<open>Chunk Collapser (\<open>extract_dialogue_refine.py\<close>)\<close>

text \<open>
  A box as the per-scene YAML holds it (\<open>text\<close>, \<open>speaker\<close>, \<open>offset\<close>), and a
  chunk as \<open>_collapse_boxes\<close> builds it (\<open>speaker\<close>, \<open>text\<close>, \<open>id\<close>).
\<close>

record box =
  b_text :: ustr
  b_speaker :: ustr
  b_offset :: int

record chunk =
  c_speaker :: ustr
  c_text :: ustr
  c_id :: int

text \<open>
  The loop of \<open>_collapse_boxes\<close> over \<open>boxes[1:]\<close>, with its variables \<open>chunks\<close>,
  \<open>cur_speaker\<close>, \<open>cur_lines\<close> and \<open>i\<close> passed along; the last equation is the
  statement after the loop, which closes the final chunk.
\<close>

fun collapse_loop :: "chunk list \<Rightarrow> ustr \<Rightarrow> ustr list \<Rightarrow> int \<Rightarrow> box list \<Rightarrow> chunk list" where
  "collapse_loop chunks cur_speaker cur_lines i [] =
     chunks @ [\<lparr>c_speaker = cur_speaker, c_text = join [newline] cur_lines, c_id = i\<rparr>]"
| "collapse_loop chunks cur_speaker cur_lines i (b # bs) =
     (if b_speaker b = cur_speaker
      then collapse_loop chunks cur_speaker (cur_lines @ [b_text b]) i bs
      else collapse_loop
             (chunks @ [\<lparr>c_speaker = cur_speaker, c_text = join [newline] cur_lines, c_id = i\<rparr>])
             (b_speaker b) [b_text b] (i + 1) bs)"

fun collapse_boxes :: "box list \<Rightarrow> chunk list" where
  "collapse_boxes [] = []"
| "collapse_boxes (b # bs) = collapse_loop [] (b_speaker b) [b_text b] 1 bs"

text \<open>
  The specification's side of the round trip: the maximal runs of consecutive boxes
  with one speaker, in order. These are the \<open>sourceBoxes\<close> of the chunks.
\<close>

fun speaker_runs :: "box list \<Rightarrow> box list list" where
  "speaker_runs [] = []"
| "speaker_runs (b # bs) =
     (case speaker_runs bs of
        [] \<Rightarrow> [[b]]
      | r # rs \<Rightarrow> (if b_speaker b = b_speaker (hd r) then (b # r) # rs else [b] # r # rs))"

section \<open>Text Layout Engine (\<open>text_box_utils.py\<close>)\<close>

text \<open>\<open>is_wide_char\<close>, on the code point \<open>ord(ch)\<close>.\<close>

definition is_wide_char :: "nat \<Rightarrow> bool" where
  "is_wide_char code =
     ((0xE000 \<le> code \<and> code \<le> 0xF8FF) \<or>
      (0xF0000 \<le> code \<and> code \<le> 0xFFFFD) \<or>
      (0x100000 \<le> code \<and> code \<le> 0x10FFFD) \<or>
      (0x3000 \<le> code \<and> code \<le> 0x303F) \<or>
      (0x3040 \<le> code \<and> code \<le> 0x309F) \<or>
      (0x30A0 \<le> code \<and> code \<le> 0x30FF) \<or>
      (0x4E00 \<le> code \<and> code \<le> 0x9FFF) \<or>
      (0xF900 \<le> code \<and> code \<le> 0xFAFF) \<or>
      (0xFF01 \<le> code \<and> code \<le> 0xFF60) \<or>
      (0xFFE0 \<le> code \<and> code \<le> 0xFFE6) \<or>
      code \<in> set [0x2014, 0x2015, 0x301C])"

definition measure_text_width :: "ustr \<Rightarrow> int" where
  "measure_text_width s = sum_list (map (\<lambda>ch. if is_wide_char ch then 2 else 1) s)"

definition space :: nat where
  "space = 32"

text \<open>
  The inner function \<open>_flush\<close> of \<open>correct_en_box\<close>: it appends the lines gathered so
  far as one sub-box, joined with a newline, and empties \<open>lines\<close>. The pair is
  \<open>(boxes, lines)\<close>.
\<close>

definition flush :: "ustr list \<Rightarrow> ustr list \<Rightarrow> ustr list \<times> ustr list" where
  "flush boxes lines = (if lines \<noteq> [] then boxes @ [join [newline] lines] else boxes, [])"

text \<open>The loop of \<open>correct_en_box\<close> over \<open>words\<close>, and the final \<open>_flush()\<close>.\<close>

fun wrap_words :: "int \<Rightarrow> int \<Rightarrow> ustr list \<Rightarrow> ustr list \<Rightarrow> ustr list \<Rightarrow> ustr list" where
  "wrap_words max_lines max_chars_per_line boxes lines [] = fst (flush boxes lines)"
| "wrap_words max_lines max_chars_per_line boxes lines (word # words) =
     (if lines = [] then wrap_words max_lines max_chars_per_line boxes [word] words
      else
        let candidate = last lines @ [space] @ word in
        if measure_text_width candidate \<le> max_chars_per_line
        then wrap_words max_lines max_chars_per_line boxes (butlast lines @ [candidate]) words
        else if int (length lines) < max_lines
        then wrap_words max_lines max_chars_per_line boxes (lines @ [word]) words
        else wrap_words max_lines max_chars_per_line (fst (flush boxes lines)) [word] words)"

definition correct_en_box :: "ustr \<Rightarrow> int \<Rightarrow> int \<Rightarrow> ustr list" where
  "correct_en_box en_box max_lines max_chars_per_line =
     wrap_words max_lines max_chars_per_line [] [] (split_on space en_box)"

text \<open>
  \<open>[[last.pop(-1)] for _ in range(need)]\<close>: each round takes the last element off
  \<open>last\<close> and makes it a container of its own. The result is what is left of
  \<open>last\<close> and the new containers in the order they were popped. The caller has
  checked \<open>len(last) > need\<close>, so no \<open>pop\<close> meets an empty list.
\<close>

fun pop_each :: "nat \<Rightarrow> 'a list \<Rightarrow> 'a list \<times> 'a list list" where
  "pop_each 0 lst = (lst, [])"
| "pop_each (Suc n) lst =
     (let (lst', new) = pop_each n (butlast lst) in (lst', [last lst] # new))"

text \<open>
  The re-chunking loop of \<open>reconcile\<close>: container \<open>i\<close> gets \<open>div + 1\<close> items of
  \<open>flat\<close> when \<open>i < rem\<close> and \<open>div\<close> otherwise; \<open>flat\<close> is passed on without the
  items already handed out (the source advances \<open>idx\<close> instead).
\<close>

fun rechunk :: "nat \<Rightarrow> nat \<Rightarrow> nat \<Rightarrow> nat \<Rightarrow> 'a list \<Rightarrow> 'a list list" where
  "rechunk d r i 0 flat = []"
| "rechunk d r i (Suc k) flat =
     (let size = (if i < r then d + 1 else d)
      in take size flat # rechunk d r (i + 1) k (drop size flat))"

text \<open>
  \<open>reconcile\<close>. Only the length of \<open>jp_boxes\<close> is read. The containers are lists the
  caller built one by one (\<open>create_english_box\<close> makes each with its own call of
  \<open>correct_en_box\<close>), so the in-place \<open>pop\<close> and \<open>extend\<close> change one container
  each, and the function's result is the value computed here. \<open>en_containers[-1]\<close>
  raises \<open>IndexError\<close> on an empty list.
\<close>

definition reconcile :: "'b list \<Rightarrow> ustr list list \<Rightarrow> py_error + ustr list list" where
  "reconcile jp_boxes en_containers =
     (let jp_len = length jp_boxes; cont_len = length en_containers in
      if jp_len > cont_len then
        (let need = jp_len - cont_len in
         case py_index en_containers (- 1) of
           Inl e \<Rightarrow> Inl e
         | Inr lst \<Rightarrow>
             if length lst > need then
               (let (lst', new) = pop_each need lst
                in Inr (butlast en_containers @ [lst'] @ rev new))
             else
               (let flat = concat en_containers;
                    total = length flat;
                    d = total div jp_len;
                    r = total mod jp_len;
                    new_containers = rechunk d r 0 jp_len flat
                in Inr (map (\<lambda>nc. if nc = [] then [[]] else nc) new_containers)))
      else if jp_len < cont_len then
        (let extras = drop jp_len en_containers;
             kept = take jp_len en_containers
         in if kept = [] then Inl IndexError
            else Inr (butlast kept @ [last kept @ concat extras]))
      else Inr en_containers)"

text \<open>
  \<open>create_english_box\<close>; the scene and chunk ids only go into a printed warning, and the
  reverse private-use map is not read.
\<close>

definition create_english_box :: "ustr \<Rightarrow> ustr \<Rightarrow> int \<Rightarrow> int \<Rightarrow> py_error + ustr list list" where
  "create_english_box jp_text en_text text_lines line_width =
     (let jp_boxes = split_on newline jp_text;
          en_boxes = split_on newline en_text;
          en_containers = map (\<lambda>en_box. correct_en_box en_box text_lines line_width) en_boxes
      in reconcile jp_boxes en_containers)"

section \<open>Label Scout and Code Generator (\<open>code_utils.py\<close>)\<close>

definition new_char_text_box_label_template :: "ustr list" where
  "new_char_text_box_label_template = [str ''add (local-int 0) 2 (global-int 6625)'']"

definition new_narr_text_box_label_template :: "ustr list" where
  "new_narr_text_box_label_template = [str ''u004160D0'', str ''mov (global-int 6622) 1'']"

text \<open>The double quote and the apostrophe that replaces it.\<close>

definition shitter :: ustr where
  "shitter = [34]"

definition safe_shitter :: ustr where
  "safe_shitter = [39]"

text \<open>
  \<open>find_label_before\<close>. The window positions are \<open>range(len(code) - seq_len + 1)\<close>,
  empty when the template is longer than the script, and \<open>code[matches[0]-1]\<close> is a
  Python index: at \<open>matches[0] = 0\<close> it is \<open>code[-1]\<close>, the last line.
\<close>

definition find_matches :: "'a list \<Rightarrow> 'a list \<Rightarrow> nat list" where
  "find_matches code label_template =
     (let seq_len = length label_template in
      filter (\<lambda>i. take seq_len (drop i code) = label_template)
        [0 ..< nat (int (length code) - int seq_len + 1)])"

definition find_label_before :: "ustr list \<Rightarrow> ustr list \<Rightarrow> py_error + ustr" where
  "find_label_before code label_template =
     (let matches = find_matches code label_template in
      if length matches = 1 then py_index code (int (matches ! 0) - 1) else Inr [])"

text \<open>
  The module's two global labels, \<open>current_char_label\<close> and \<open>current_narr_label\<close>,
  as \<open>init_labels\<close> sets them.
\<close>

record labels =
  current_char_label :: ustr
  current_narr_label :: ustr

definition init_labels :: "ustr list \<Rightarrow> py_error + labels" where
  "init_labels full_code =
     (case find_label_before full_code new_char_text_box_label_template of
        Inl e \<Rightarrow> Inl e
      | Inr c \<Rightarrow>
          (case find_label_before full_code new_narr_text_box_label_template of
             Inl e \<Rightarrow> Inl e
           | Inr n \<Rightarrow> Inr \<lparr>current_char_label = c, current_narr_label = n\<rparr>))"

definition show_text :: "ustr \<Rightarrow> ustr" where
  "show_text payload = str ''show-text 0 '' @ [34] @ payload @ [34]"

definition concat_bbb :: "ustr \<Rightarrow> ustr" where
  "concat_bbb payload =
     str ''concat (global-string bbb) (global-string bbb) '' @ [34] @ payload @ [34]"

text \<open>
  The bridging sequence \<open>create_text_box_code\<close> emits between two sub-boxes.
\<close>

definition bridge :: "labels \<Rightarrow> ustr \<Rightarrow> ustr list" where
  "bridge lb speaker =
     [str ''comment '' @ [34] @ str ''Extra Textbox '' @ speaker @ [34],
      str ''u004213E0 0'', str ''u0041A7B0 2'', str ''u0041A7B0 1''] @
     (if speaker = str ''Narrator''
      then (if current_narr_label lb \<noteq> []
            then [str ''call '' @ rstrip (current_narr_label lb)] else []) @ [str ''u004160D0'']
      else [str ''u004160D0''] @
           (if current_char_label lb \<noteq> []
            then [str ''call '' @ rstrip (current_char_label lb)] else [])) @
     [str ''308 1'', str ''u004213E0 1'', str ''u00416120'']"

text \<open>
  \<open>create_text_box_code\<close>: the loop over \<open>enumerate(en_box)\<close> with \<open>final_code\<close>
  passed along; \<open>b != len(en_box) - 1\<close> holds exactly when boxes remain.
\<close>

fun text_box_code_loop :: "labels \<Rightarrow> ustr \<Rightarrow> ustr list \<Rightarrow> ustr list \<Rightarrow> ustr list" where
  "text_box_code_loop lb speaker final_code [] = final_code"
| "text_box_code_loop lb speaker final_code (bx # rest) =
     (let lines = split_on newline bx;
          fc1 = final_code @ [[]];
          fc2 = fc1 @ concat (map (\<lambda>l. [show_text (replace shitter safe_shitter l),
                                          str ''end-text-line 0'']) lines);
          fc3 = butlast fc2;
          fc4 = fc3 @ [str ''wait-for-input 0'', str ''end-text-line 0'', []];
          fc5 = (if rest \<noteq> [] then fc4 @ bridge lb speaker else fc4)
      in text_box_code_loop lb speaker fc5 rest)"

definition create_text_box_code :: "labels \<Rightarrow> ustr list \<Rightarrow> ustr \<Rightarrow> ustr list" where
  "create_text_box_code lb en_box speaker = text_box_code_loop lb speaker [] en_box"

text \<open>
  \<open>create_text_box_code_concat\<close>: per line a \<open>show-text\<close> with the line as it is, a
  \<open>concat\<close> with the double quotes of the line replaced, and an \<open>end-text-line\<close>.
\<close>

fun concat_code_loop :: "ustr list \<Rightarrow> ustr list \<Rightarrow> ustr list" where
  "concat_code_loop final_code [] = final_code"
| "concat_code_loop final_code (bx # rest) =
     (let lines = split_on newline bx;
          fc1 = final_code @ [[]];
          fc2 = fc1 @ concat (map (\<lambda>l. [show_text l,
                                          concat_bbb (replace shitter safe_shitter l),
                                          str ''end-text-line 0'']) lines);
          fc3 = butlast fc2;
          fc4 = fc3 @ [[]];
          fc5 = (if rest \<noteq> [] then butlast fc4 @ [str ''end-text-line 0''] else fc4)
      in concat_code_loop fc5 rest)"

definition create_text_box_code_concat :: "ustr list \<Rightarrow> ustr list" where
  "create_text_box_code_concat en_box = concat_code_loop [] en_box"

text \<open>\<open>create_text_box_code_SG\<close>: the loop breaks after the first sub-box.\<close>

fun create_text_box_code_SG :: "ustr list \<Rightarrow> ustr list" where
  "create_text_box_code_SG [] = []"
| "create_text_box_code_SG (bx # rest) =
     [[]] @ concat (map (\<lambda>l. [show_text (replace shitter safe_shitter l),
                                str ''end-text-line 0'']) (split_on newline bx)) @ [[]]"

section \<open>Box Detector (\<open>extract_dialogue.py\<close>)\<close>

definition TEXT_CMDS :: "ustr list" where
  "TEXT_CMDS = [str ''show-text 0'', str ''display-furigana 0'', str ''wait-for-input 0'',
                str ''end-text-line 0'', str ''concat'']"

text \<open>\<open>any(st.startswith(cmd) for cmd in TEXT_CMDS)\<close>.\<close>

definition is_text_cmd :: "ustr \<Rightarrow> bool" where
  "is_text_cmd st = list_ex (\<lambda>cmd. startswith st cmd) TEXT_CMDS"

subsection \<open>The regular expressions\<close>

text \<open>
  The patterns of the module are sequences of literals, \<open>\s+\<close> and one greedy group, so
  each is matched left to right without a regular expression engine: a greedy \<open>\s+\<close>
  is always followed by a character that is not white space, so giving back white space
  never helps. \<open>match_lit\<close> and \<open>match_ws1\<close> return what is left of the input.
\<close>

definition match_lit :: "ustr \<Rightarrow> ustr \<Rightarrow> ustr option" where
  "match_lit lit s = (if startswith s lit then Some (drop (length lit) s) else None)"

definition match_ws1 :: "ustr \<Rightarrow> ustr option" where
  "match_ws1 s = (case s of [] \<Rightarrow> None
                  | c # cs \<Rightarrow> if isspace c then Some (dropWhile isspace cs) else None)"

text \<open>\<open>LOOKUP_6623.match(st)\<close>: \<open>lookup-array\s+\(local-ptr 0\)\s+\(global-int 6623\<close>.\<close>

definition lookup_6623_match :: "ustr \<Rightarrow> bool" where
  "lookup_6623_match st =
     (Option.bind (match_lit (str ''lookup-array'') st) (\<lambda>r1.
      Option.bind (match_ws1 r1) (\<lambda>r2.
      Option.bind (match_lit (str ''(local-ptr 0)'') r2) (\<lambda>r3.
      Option.bind (match_ws1 r3) (\<lambda>r4.
      match_lit (str ''(global-int 6623'') r4)))) \<noteq> None)"

definition is_hex :: "nat \<Rightarrow> bool" where
  "is_hex c = ((48 \<le> c \<and> c \<le> 57) \<or> (97 \<le> c \<and> c \<le> 102) \<or> (65 \<le> c \<and> c \<le> 70))"

text \<open>
  \<open>MOV_LOCAL_PTR.match(st)\<close>: \<open>mov\s+\(local-ptr 0\)\s+([0-9a-fA-F]+)\<close>; the result is
  the group.
\<close>

definition mov_local_ptr_match :: "ustr \<Rightarrow> ustr option" where
  "mov_local_ptr_match st =
     Option.bind (match_lit (str ''mov'') st) (\<lambda>r1.
     Option.bind (match_ws1 r1) (\<lambda>r2.
     Option.bind (match_lit (str ''(local-ptr 0)'') r2) (\<lambda>r3.
     Option.bind (match_ws1 r3) (\<lambda>r4.
     (let g = takeWhile is_hex r4 in if g = [] then None else Some g)))))"

text \<open>\<open>int(group, 16)\<close> on a string of hexadecimal digits.\<close>

definition hex_digit :: "nat \<Rightarrow> int" where
  "hex_digit c = (if c \<le> 57 then int c - 48 else if 97 \<le> c then int c - 87 else int c - 55)"

definition int_hex :: "ustr \<Rightarrow> int" where
  "int_hex g = foldl (\<lambda>acc c. 16 * acc + hex_digit c) 0 g"

text \<open>
  The tail of \<open>SHOW_RE\<close> after the opening quote, \<open>(.*)"\<close>: the greedy group runs to
  the last double quote before the next line break (\<open>.\<close> does not match one).
\<close>

definition greedy_to_quote :: "ustr \<Rightarrow> ustr option" where
  "greedy_to_quote r =
     (let seg = takeWhile (\<lambda>c. c \<noteq> newline) r in
      if 34 \<in> set seg then Some (rev (tl (dropWhile (\<lambda>c. c \<noteq> 34) (rev seg)))) else None)"

text \<open>\<open>SHOW_RE\<close>, \<open>show-text 0\s+"(.*)"\<close>, matched at the start of \<open>s\<close>.\<close>

definition show_re_at :: "ustr \<Rightarrow> ustr option" where
  "show_re_at s =
     Option.bind (match_lit (str ''show-text 0'') s) (\<lambda>r1.
     Option.bind (match_ws1 r1) (\<lambda>r2.
     Option.bind (match_lit [34] r2) greedy_to_quote))"

text \<open>\<open>SHOW_RE.search(ln)\<close>: the first position where the pattern matches.\<close>

fun show_re_search :: "ustr \<Rightarrow> ustr option" where
  "show_re_search [] = None"
| "show_re_search (c # cs) =
     (case show_re_at (c # cs) of Some g \<Rightarrow> Some g | None \<Rightarrow> show_re_search cs)"

text \<open>
  A quoted group \<open>"([^"]+)"\<close> at the start of \<open>s\<close>: the group and what follows the
  closing quote.
\<close>

definition quoted_group :: "ustr \<Rightarrow> (ustr \<times> ustr) option" where
  "quoted_group s =
     Option.bind (match_lit [34] s) (\<lambda>r.
     (let g = takeWhile (\<lambda>c. c \<noteq> 34) r; rest = dropWhile (\<lambda>c. c \<noteq> 34) r in
      if g = [] \<or> rest = [] then None else Some (g, tl rest)))"

text \<open>\<open>FURI_RE\<close>, \<open>display-furigana 0\s+"([^"]+)"\s+"([^"]+)"\<close>, at the start of \<open>s\<close>.\<close>

definition furi_re_at :: "ustr \<Rightarrow> (ustr \<times> ustr) option" where
  "furi_re_at s =
     Option.bind (match_lit (str ''display-furigana 0'') s) (\<lambda>r1.
     Option.bind (match_ws1 r1) (\<lambda>r2.
     Option.bind (quoted_group r2) (\<lambda>(kanji, r3).
     Option.bind (match_ws1 r3) (\<lambda>r4.
     Option.bind (quoted_group r4) (\<lambda>(furi, r5). Some (kanji, furi))))))"

fun furi_re_search :: "ustr \<Rightarrow> (ustr \<times> ustr) option" where
  "furi_re_search [] = None"
| "furi_re_search (c # cs) =
     (case furi_re_at (c # cs) of Some g \<Rightarrow> Some g | None \<Rightarrow> furi_re_search cs)"

subsection \<open>Helpers\<close>

text \<open>
  \<open>unesc\<close>: first a backslash followed by a double quote becomes the double quote,
  then two backslashes become one.
\<close>

definition unesc :: "ustr \<Rightarrow> ustr" where
  "unesc s = replace [92, 92] [92] (replace [92, 34] [34] s)"

fun join_text_parts :: "ustr list \<Rightarrow> ustr list" where
  "join_text_parts [] = []"
| "join_text_parts (ln # lns) =
     (if startswith (lstrip ln) (str ''show-text 0'') then
        (case show_re_search ln of
           Some g \<Rightarrow> unesc g # join_text_parts lns
         | None \<Rightarrow> join_text_parts lns)
      else if startswith (lstrip ln) (str ''display-furigana 0'') then
        (case furi_re_search ln of
           Some (kanji, furi) \<Rightarrow> (kanji @ str ''('' @ furi @ str '')'') # join_text_parts lns
         | None \<Rightarrow> join_text_parts lns)
      else join_text_parts lns)"

definition join_text :: "ustr list \<Rightarrow> ustr" where
  "join_text lns = concat (join_text_parts lns)"

definition is_box_start :: "ustr \<Rightarrow> ustr \<Rightarrow> bool" where
  "is_box_start line file_name =
     (line = str ''u00416120'' \<or> line = str ''304'' \<or>
      (contains file_name (str ''SG'') \<and> line = str ''call label_00004c70''))"

subsection \<open>The scan\<close>

record TextBox =
  tb_idx :: int
  tb_speaker :: ustr
  tb_offset :: int
  tb_jp_text :: ustr
  tb_raw :: "ustr list"

text \<open>
  The local variables of \<open>extract_boxes\<close> that the loop and \<open>close\<close> share. \<open>spans\<close>
  is not a variable of the source: it records, for every box \<open>close\<close> emits, the values
  of \<open>start_idx\<close> and \<open>end_before\<close> at that moment, so that a theorem can speak of
  the line positions of a box. Nothing reads it.
\<close>

record scan_state =
  boxes :: "TextBox list"
  pending_speaker :: "int option"
  waiting_mov :: bool
  in_box :: bool
  after_u :: bool
  buf :: "ustr list"
  start_idx :: int
  last_end :: int
  spans :: "(int \<times> int) list"

definition init_state :: scan_state where
  "init_state = \<lparr>boxes = [], pending_speaker = None, waiting_mov = False, in_box = False,
     after_u = False, buf = [], start_idx = - 1, last_end = 0, spans = []\<rparr>"

text \<open>\<open>name_map.get(pending_speaker, "Narrator")\<close>.\<close>

definition speaker_name_of :: "(int \<rightharpoonup> ustr) \<Rightarrow> int option \<Rightarrow> ustr" where
  "speaker_name_of name_map p =
     (case p of None \<Rightarrow> str ''Narrator''
      | Some k \<Rightarrow> (case name_map k of None \<Rightarrow> str ''Narrator'' | Some n \<Rightarrow> n))"

text \<open>The inner function \<open>close(end_before)\<close>.\<close>

definition close :: "(int \<rightharpoonup> ustr) \<Rightarrow> int \<Rightarrow> scan_state \<Rightarrow> scan_state" where
  "close name_map end_before s =
     (let s1 =
        (if in_box s \<and> buf s \<noteq> [] then
           (let speaker_name = speaker_name_of name_map (pending_speaker s);
                offset = (if last_end s \<ge> 0 then start_idx s - last_end s else 0);
                jp = join_text (drop 1 (buf s))
            in s\<lparr>boxes := boxes s @
                   [\<lparr>tb_idx = int (length (boxes s)) + 1, tb_speaker = speaker_name,
                     tb_offset = offset, tb_jp_text = jp, tb_raw = buf s\<rparr>],
                 spans := spans s @ [(start_idx s, end_before)],
                 last_end := end_before\<rparr>)
         else s)
      in s1\<lparr>in_box := False, after_u := False, buf := [], start_idx := - 1,
            pending_speaker := None\<rparr>)"

text \<open>The speaker tracking at the head of the loop body; \<open>st\<close> is \<open>ln.strip()\<close>.\<close>

definition track_speaker :: "ustr \<Rightarrow> scan_state \<Rightarrow> scan_state" where
  "track_speaker st s =
     (if lookup_6623_match st then s\<lparr>waiting_mov := True\<rparr>
      else if waiting_mov s then
        (case mov_local_ptr_match st of
           Some g \<Rightarrow> s\<lparr>pending_speaker := Some (int_hex g), waiting_mov := False\<rparr>
         | None \<Rightarrow> s\<lparr>waiting_mov := False\<rparr>)
      else s)"

text \<open>
  What both places of the loop do once \<open>is_box_start(st, path.stem)\<close> holds: read
  \<open>lines[idx+1]\<close>, and open a pending box only when that line starts with
  \<open>show-text\<close>. The read raises \<open>IndexError\<close> when line \<open>idx\<close> is the last one.
\<close>

definition confirm_start :: "ustr list \<Rightarrow> int \<Rightarrow> ustr \<Rightarrow> scan_state \<Rightarrow> py_error + scan_state" where
  "confirm_start lines i ln s =
     (case py_index lines (i + 1) of
        Inl e \<Rightarrow> Inl e
      | Inr nxt \<Rightarrow>
          if \<not> startswith nxt (str ''show-text'') then Inr s
          else Inr (s\<lparr>after_u := True, buf := [ln], start_idx := i\<rparr>))"

text \<open>The box state machine of the loop body, for line \<open>ln\<close> at index \<open>i\<close>.\<close>

definition box_machine ::
  "(int \<rightharpoonup> ustr) \<Rightarrow> ustr \<Rightarrow> ustr list \<Rightarrow> int \<Rightarrow> ustr \<Rightarrow> scan_state \<Rightarrow> py_error + scan_state" where
  "box_machine name_map file_name lines i ln s =
     (let st = strip ln in
      if \<not> in_box s then
        (if is_box_start st file_name then confirm_start lines i ln s
         else if after_u s then
           (if is_text_cmd st then Inr (s\<lparr>in_box := True, buf := buf s @ [ln]\<rparr>)
            else Inr (s\<lparr>after_u := False, buf := []\<rparr>))
         else Inr s)
      else
        (if is_text_cmd st then Inr (s\<lparr>buf := buf s @ [ln]\<rparr>)
         else
           (let s' = close name_map (i - 1) s in
            if is_box_start st file_name then confirm_start lines i ln s' else Inr s')))"

definition scan_step ::
  "(int \<rightharpoonup> ustr) \<Rightarrow> ustr \<Rightarrow> ustr list \<Rightarrow> int \<Rightarrow> ustr \<Rightarrow> scan_state \<Rightarrow> py_error + scan_state" where
  "scan_step name_map file_name lines i ln s =
     box_machine name_map file_name lines i ln (track_speaker (strip ln) s)"

text \<open>
  \<open>for idx, ln in enumerate(lines)\<close>, from index \<open>i\<close> on; the fifth argument is what
  is left of \<open>lines\<close>.
\<close>

fun scan_loop ::
  "(int \<rightharpoonup> ustr) \<Rightarrow> ustr \<Rightarrow> ustr list \<Rightarrow> int \<Rightarrow> ustr list \<Rightarrow> scan_state \<Rightarrow> py_error + scan_state" where
  "scan_loop name_map file_name lines i [] s = Inr s"
| "scan_loop name_map file_name lines i (ln # rest) s =
     (case scan_step name_map file_name lines i ln s of
        Inl e \<Rightarrow> Inl e
      | Inr s' \<Rightarrow> scan_loop name_map file_name lines (i + 1) rest s')"

text \<open>
  The whole of \<open>extract_boxes\<close> after the file is read, up to and with the closing
  \<open>close(len(lines) - 1)\<close>: \<open>file_name\<close> is \<open>path.stem\<close> and \<open>lines\<close> the lines of
  the file. \<open>extract_boxes\<close> returns the boxes of the final state.
\<close>

definition scan :: "(int \<rightharpoonup> ustr) \<Rightarrow> ustr \<Rightarrow> ustr list \<Rightarrow> py_error + scan_state" where
  "scan name_map file_name lines =
     (case scan_loop name_map file_name lines 0 lines init_state of
        Inl e \<Rightarrow> Inl e
      | Inr s \<Rightarrow> Inr (close name_map (int (length lines) - 1) s))"

definition extract_boxes :: "(int \<rightharpoonup> ustr) \<Rightarrow> ustr \<Rightarrow> ustr list \<Rightarrow> py_error + TextBox list" where
  "extract_boxes name_map file_name lines =
     (case scan name_map file_name lines of Inl e \<Rightarrow> Inl e | Inr s \<Rightarrow> Inr (boxes s))"

section \<open>Script Splicer (\<open>reinsert.py\<close>)\<close>

text \<open>
  The first loop of \<open>craft_into_script\<close>, which picks the code variant of every box:
  \<open>code_map\<close>, \<open>concat_offset\<close> and \<open>concat_container\<close> are passed along, and the
  last argument is \<open>zip(jp_box_dicts, final_en_containers)\<close>. The script line is read
  only when \<open>concat_container\<close> is false, as Python's \<open>or\<close> does.
\<close>

fun choose_code ::
  "labels \<Rightarrow> ustr \<Rightarrow> ustr list \<Rightarrow> ustr list list \<Rightarrow> int \<Rightarrow> bool \<Rightarrow> (box \<times> ustr list) list
   \<Rightarrow> py_error + ustr list list" where
  "choose_code lb scene_id final_en_script code_map concat_offset concat_container [] =
     Inr code_map"
| "choose_code lb scene_id final_en_script code_map concat_offset concat_container
     ((jp_box, en_container) # rest) =
     (let concat_offset' = concat_offset + b_offset jp_box + 2 in
      if contains scene_id (str ''SG'') then
        choose_code lb scene_id final_en_script
          (code_map @ [create_text_box_code_SG en_container]) concat_offset' concat_container rest
      else if concat_container then
        choose_code lb scene_id final_en_script
          (code_map @ [create_text_box_code_concat en_container]) concat_offset' True rest
      else
        (case py_index final_en_script concat_offset' of
           Inl e \<Rightarrow> Inl e
         | Inr ln \<Rightarrow>
             if startswith ln (str ''concat'') then
               choose_code lb scene_id final_en_script
                 (code_map @ [create_text_box_code_concat en_container]) concat_offset' True rest
             else
               choose_code lb scene_id final_en_script
                 (code_map @ [create_text_box_code lb en_container (b_speaker jp_box)])
                 concat_offset' concat_container rest))"

text \<open>
  The \<open>while True\<close> loop of the second part: \<open>lookat\<close> moves forward while the line it
  reaches is a text command, and the first line that is not gives \<open>text_box_end\<close>.
  Reading past the last line raises \<open>IndexError\<close>, so the loop ends on every script.
\<close>

function box_end :: "ustr list \<Rightarrow> int \<Rightarrow> py_error + int" where
  "box_end final_en_script lookat =
     (case py_index final_en_script (lookat + 1) of
        Inl e \<Rightarrow> Inl e
      | Inr ln \<Rightarrow>
          if is_text_cmd (strip ln) then box_end final_en_script (lookat + 1)
          else Inr (lookat + 1))"
  by pat_completeness auto
termination
  by (relation "measure (\<lambda>(scr, lookat). nat (int (length scr) - lookat))")
     (auto simp: py_index_def split: if_splits)

declare box_end.simps [simp del]

text \<open>
  The body of the second loop for box \<open>i\<close> of the run: it returns the new \<open>position\<close>
  and the new script. \<open>code_map[i]\<close> raises \<open>KeyError\<close> when the first loop made no
  entry for \<open>i\<close>.
\<close>

definition splice_box ::
  "ustr list list \<Rightarrow> nat \<Rightarrow> int \<Rightarrow> ustr list \<Rightarrow> box \<Rightarrow> py_error + (int \<times> ustr list)" where
  "splice_box code_map i position final_en_script jp_dict =
     (let offset = b_offset jp_dict;
          lookat = position + offset;
          text_box_start = lookat
      in case box_end final_en_script lookat of
           Inl e \<Rightarrow> Inl e
         | Inr text_box_end \<Rightarrow>
             if i < length code_map then
               (let en_lines = code_map ! i in
                Inr (int (length en_lines) + text_box_start,
                     slice_to final_en_script (text_box_start + 1) @ en_lines @
                     slice_from final_en_script text_box_end))
             else Inl KeyError)"

fun splice_loop ::
  "ustr list list \<Rightarrow> nat \<Rightarrow> int \<Rightarrow> ustr list \<Rightarrow> box list \<Rightarrow> py_error + (int \<times> ustr list)" where
  "splice_loop code_map i position final_en_script [] = Inr (position, final_en_script)"
| "splice_loop code_map i position final_en_script (jp_dict # rest) =
     (case splice_box code_map i position final_en_script jp_dict of
        Inl e \<Rightarrow> Inl e
      | Inr (position', script') \<Rightarrow> splice_loop code_map (i + 1) position' script' rest)"

text \<open>
  \<open>craft_into_script\<close>. \<open>text_lines\<close> and \<open>line_length\<close> are the two entries of
  \<open>config\<close> it reads, and \<open>lb\<close> the labels \<open>init_labels\<close> found for the scene.
\<close>

definition craft_into_script ::
  "labels \<Rightarrow> ustr \<Rightarrow> box list \<Rightarrow> ustr list \<Rightarrow> int \<Rightarrow> int \<Rightarrow> int \<Rightarrow> ustr
   \<Rightarrow> py_error + (int \<times> ustr list)" where
  "craft_into_script lb en_boxes jp_box_dicts final_en_script text_lines line_length
     starting_offset scene_id =
     (let jp_boxes = join [newline] (map b_text jp_box_dicts) in
      case create_english_box jp_boxes en_boxes text_lines line_length of
        Inl e \<Rightarrow> Inl e
      | Inr final_en_containers \<Rightarrow>
          (case choose_code lb scene_id final_en_script [] starting_offset False
                  (zip jp_box_dicts final_en_containers) of
             Inl e \<Rightarrow> Inl e
           | Inr code_map \<Rightarrow> splice_loop code_map 0 starting_offset final_en_script jp_box_dicts))"

text \<open>
  \<open>replace_str\<close> of \<open>manual_replacements.py\<close>: the process-wide dictionary \<open>rep_dict\<close>
  is the list \<open>rep\<close> of its items in iteration order.
\<close>

definition replace_str :: "(ustr \<times> ustr) list \<Rightarrow> ustr \<Rightarrow> ustr" where
  "replace_str rep txt = foldl (\<lambda>t (old, new). replace old new t) txt rep"

text \<open>
  What \<open>replace_manual_strings\<close> puts in place of a differing \<open>set-string\<close> line: with
  more than one double quote in the stripped line, the stripped line with
  \<open>replace_str\<close> applied to the piece before the last quote; the edited line as it is
  otherwise.
\<close>

definition swap_line :: "(ustr \<times> ustr) list \<Rightarrow> ustr \<Rightarrow> ustr" where
  "swap_line rep edited_line =
     (if count_char 34 (strip edited_line) > 1 then
        (let edited_line_split = split_on 34 (strip edited_line);
             k = length edited_line_split - 2
         in join [34] (edited_line_split[k := replace_str rep (edited_line_split ! k)]))
      else edited_line)"

definition replace_manual_strings ::
  "(ustr \<times> ustr) list \<Rightarrow> ustr list \<Rightarrow> ustr list \<Rightarrow> py_error + ustr list" where
  "replace_manual_strings rep final_en_script edited_script =
     (if length final_en_script \<noteq> length edited_script then Inl ValueError
      else Inr (map (\<lambda>(orig_line, edited_line).
                  if orig_line \<noteq> edited_line \<and> startswith (strip edited_line) (str ''set-string'')
                  then swap_line rep edited_line else orig_line)
                (zip final_en_script edited_script)))"

section \<open>The splicing rounds, as the specification words them\<close>

text \<open>
  This relation is not code of the repository: it is the specification's description of
  the second loop of \<open>craft_into_script\<close>, to be compared with \<open>splice_loop\<close>.
  \<open>splices code_map i p scr bs p' scr'\<close> says that splicing the boxes \<open>bs\<close>, the
  first of which is box \<open>i\<close> of the run, into \<open>scr\<close> from cursor \<open>p\<close> gives the
  script \<open>scr'\<close> and the cursor \<open>p'\<close>. For one box with offset \<open>d\<close>: the start
  \<open>s = p + d\<close> is not before \<open>p\<close>; \<open>e\<close> is the first position after \<open>s\<close> whose
  line is not a text command; the lines from \<open>s + 1\<close> up to \<open>e\<close>, exclusive, are
  replaced by the block \<open>g = code_map[i]\<close>; the lines up to and with \<open>s\<close> are
  unchanged; and the next box is met at cursor \<open>s + len(g)\<close>.
\<close>

inductive splices ::
  "ustr list list \<Rightarrow> nat \<Rightarrow> int \<Rightarrow> ustr list \<Rightarrow> box list \<Rightarrow> int \<Rightarrow> ustr list \<Rightarrow> bool" where
  splices_end: "splices code_map i p scr [] p scr"
| splices_box:
  "s = p + b_offset b \<Longrightarrow> p \<le> s \<Longrightarrow> 0 \<le> s \<Longrightarrow>
   nat s < e \<Longrightarrow> e < length scr \<Longrightarrow> \<not> is_text_cmd (strip (scr ! e)) \<Longrightarrow>
   (\<forall>k. nat s < k \<and> k < e \<longrightarrow> is_text_cmd (strip (scr ! k))) \<Longrightarrow>
   i < length code_map \<Longrightarrow> g = code_map ! i \<Longrightarrow>
   scr1 = take (nat s + 1) scr @ g @ drop e scr \<Longrightarrow>
   (\<forall>k \<le> nat s. scr1 ! k = scr ! k) \<Longrightarrow>
   splices code_map (i + 1) (s + int (length g)) scr1 bs p' scr' \<Longrightarrow>
   splices code_map i p scr (b # bs) p' scr'"

inductive_cases splices_NilE: "splices code_map i p scr [] p' scr'"
inductive_cases splices_ConsE: "splices code_map i p scr (b # bs) p' scr'"

section \<open>The invariant of the scan\<close>

text \<open>
  These predicates are not code of the repository: they state what the proofs about
  \<open>extract_boxes\<close> maintain. \<open>prev_end sps k\<close> is the end position of the box before
  box \<open>k\<close>, and position 0 for the first box.
\<close>

definition prev_end :: "(int \<times> int) list \<Rightarrow> nat \<Rightarrow> int" where
  "prev_end sps k = (if k = 0 then 0 else snd (sps ! (k - 1)))"

text \<open>
  A box \<open>b\<close> emitted for the lines from \<open>st\<close> to \<open>en\<close>, after a box that ended at
  \<open>prev\<close>: the offset is the distance from \<open>prev\<close> to \<open>st\<close>, the raw buffer is
  \<open>lines[st:en+1]\<close>, the line at \<open>st\<close> is a marker, and the line after it starts
  with \<open>show-text\<close> and is a text command.
\<close>

definition span_ok :: "ustr list \<Rightarrow> ustr \<Rightarrow> int \<Rightarrow> TextBox \<Rightarrow> int \<times> int \<Rightarrow> bool" where
  "span_ok lines file_name prev b sp =
     (tb_offset b = fst sp - prev \<and> 0 \<le> tb_offset b \<and> 0 \<le> fst sp \<and> fst sp < snd sp \<and>
      snd sp < int (length lines) \<and>
      tb_raw b = slice lines (fst sp) (snd sp + 1) \<and>
      is_box_start (strip (lines ! nat (fst sp))) file_name \<and>
      startswith (lines ! nat (fst sp + 1)) (str ''show-text'') \<and>
      is_text_cmd (strip (lines ! nat (fst sp + 1))))"

definition emitted_ok :: "ustr list \<Rightarrow> ustr \<Rightarrow> TextBox list \<Rightarrow> (int \<times> int) list \<Rightarrow> bool" where
  "emitted_ok lines file_name bs sps =
     (length sps = length bs \<and>
      (\<forall>k < length bs. span_ok lines file_name (prev_end sps k) (bs ! k) (sps ! k)))"

text \<open>
  The state before line \<open>i\<close> is read: the boxes emitted so far are in order, \<open>last_end\<close>
  is the end of the last one (0 when there is none), and a pending or open box started at
  a confirmed marker after \<open>last_end\<close> and holds the lines from there up to \<open>i\<close>.
\<close>

definition scan_inv :: "ustr list \<Rightarrow> ustr \<Rightarrow> nat \<Rightarrow> scan_state \<Rightarrow> bool" where
  "scan_inv lines file_name i s =
     (emitted_ok lines file_name (boxes s) (spans s) \<and>
      last_end s = prev_end (spans s) (length (spans s)) \<and>
      0 \<le> last_end s \<and>
      (spans s \<noteq> [] \<longrightarrow> last_end s < int i) \<and>
      i \<le> length lines \<and>
      (in_box s \<longrightarrow> after_u s) \<and>
      (after_u s \<longrightarrow>
         0 \<le> start_idx s \<and> last_end s \<le> start_idx s \<and>
         (spans s \<noteq> [] \<longrightarrow> last_end s < start_idx s) \<and>
         start_idx s < int i \<and>
         buf s = slice lines (start_idx s) (int i) \<and>
         is_box_start (strip (lines ! nat (start_idx s))) file_name \<and>
         start_idx s + 1 < int (length lines) \<and>
         startswith (lines ! nat (start_idx s + 1)) (str ''show-text'') \<and>
         (in_box s \<longrightarrow> start_idx s + 1 < int i) \<and>
         (in_box s \<longrightarrow> is_text_cmd (strip (lines ! nat (start_idx s + 1)))) \<and>
         (\<not> in_box s \<longrightarrow> int i = start_idx s + 1)))"

section \<open>Properties of the Chunk Collapser\<close>

lemma speaker_runs_nonempty: "r \<in> set (speaker_runs bs) \<Longrightarrow> r \<noteq> []"
  by (induction bs arbitrary: r) (auto split: list.splits if_splits)

lemma speaker_runs_concat: "concat (speaker_runs bs) = bs"
  by (induction bs) (auto split: list.splits)

lemma speaker_runs_uniform:
  "r \<in> set (speaker_runs bs) \<Longrightarrow> x \<in> set r \<Longrightarrow> b_speaker x = b_speaker (hd r)"
  by (induction bs arbitrary: r x) (auto split: list.splits if_splits)

lemma speaker_runs_hd:
  "speaker_runs (b # bs) \<noteq> [] \<and> hd (hd (speaker_runs (b # bs))) = b"
  by (auto split: list.splits)

lemma speaker_runs_single:
  "r \<noteq> [] \<Longrightarrow> \<forall>x \<in> set r. b_speaker x = s \<Longrightarrow> speaker_runs r = [r]"
proof (induction r)
  case Nil
  then show ?case by simp
next
  case (Cons a r)
  show ?case
  proof (cases r)
    case Nil
    then show ?thesis by simp
  next
    case (Cons a' r')
    with Cons.IH Cons.prems have "speaker_runs r = [r]" by simp
    with Cons Cons.prems show ?thesis by simp
  qed
qed

lemma speaker_runs_break:
  "r \<noteq> [] \<Longrightarrow> \<forall>x \<in> set r. b_speaker x = s \<Longrightarrow> b_speaker b \<noteq> s \<Longrightarrow>
   speaker_runs (r @ b # bs) = r # speaker_runs (b # bs)"
proof (induction r)
  case Nil
  then show ?case by simp
next
  case (Cons a r)
  obtain q qs where q: "speaker_runs (b # bs) = q # qs" and hq: "hd q = b"
    using speaker_runs_hd [of b bs] by (cases "speaker_runs (b # bs)") auto
  show ?case
  proof (cases r)
    case Nil
    with Cons.prems q hq show ?thesis by simp
  next
    case (Cons a' r')
    with Cons.IH Cons.prems have "speaker_runs (r @ b # bs) = r # speaker_runs (b # bs)"
      by simp
    with Cons Cons.prems show ?thesis by simp
  qed
qed

lemma collapse_loop_runs:
  "r \<noteq> [] \<Longrightarrow> \<forall>x \<in> set r. b_speaker x = s \<Longrightarrow>
   map c_text (collapse_loop chunks s (map b_text r) i bs) =
   map c_text chunks @ map (\<lambda>q. join [newline] (map b_text q)) (speaker_runs (r @ bs))"
proof (induction bs arbitrary: r s chunks i)
  case Nil
  then show ?case using speaker_runs_single [of r s] by simp
next
  case (Cons b bs)
  show ?case
  proof (cases "b_speaker b = s")
    case True
    have "map c_text (collapse_loop chunks s (map b_text (r @ [b])) i bs) =
          map c_text chunks @ map (\<lambda>q. join [newline] (map b_text q)) (speaker_runs ((r @ [b]) @ bs))"
      using Cons.prems True Cons.IH [of "r @ [b]" s chunks i] by auto
    with True show ?thesis by simp
  next
    case False
    let ?c = "\<lparr>c_speaker = s, c_text = join [newline] (map b_text r), c_id = i\<rparr>"
    have "map c_text (collapse_loop (chunks @ [?c]) (b_speaker b) (map b_text [b]) (i + 1) bs) =
          map c_text (chunks @ [?c]) @ map (\<lambda>q. join [newline] (map b_text q)) (speaker_runs ([b] @ bs))"
      using Cons.IH [of "[b]" "b_speaker b" "chunks @ [?c]" "i + 1"] by auto
    moreover have "speaker_runs (r @ b # bs) = r # speaker_runs (b # bs)"
      using Cons.prems False speaker_runs_break [of r s b bs] by auto
    ultimately show ?thesis using False by simp
  qed
qed

text \<open>
  C8. For every ordered box list, the chunks of \<open>_collapse_boxes\<close> correspond one to
  one, in order, to the maximal runs of consecutive same-speaker boxes, and the text of
  each chunk is exactly the texts of the boxes of its run joined with a newline. The
  runs are non-empty, each has one speaker, and together they are the box list.
\<close>

theorem collapse_boxes_round_trip:
  "map c_text (collapse_boxes bxs) =
     map (\<lambda>r. join [newline] (map b_text r)) (speaker_runs bxs)
   \<and> length (collapse_boxes bxs) = length (speaker_runs bxs)
   \<and> concat (speaker_runs bxs) = bxs"
proof -
  have t: "map c_text (collapse_boxes bxs) =
     map (\<lambda>r. join [newline] (map b_text r)) (speaker_runs bxs)"
  proof (cases bxs)
    case Nil
    then show ?thesis by simp
  next
    case (Cons b bs)
    have "map c_text (collapse_loop [] (b_speaker b) (map b_text [b]) 1 bs) =
          map c_text [] @ map (\<lambda>q. join [newline] (map b_text q)) (speaker_runs ([b] @ bs))"
      using collapse_loop_runs [of "[b]" "b_speaker b" "[]" 1 bs] by auto
    with Cons show ?thesis by simp
  qed
  from t have "length (map c_text (collapse_boxes bxs)) =
     length (map (\<lambda>r. join [newline] (map b_text r)) (speaker_runs bxs))"
    by simp
  then have "length (collapse_boxes bxs) = length (speaker_runs bxs)"
    by simp
  with t show ?thesis by (simp add: speaker_runs_concat)
qed

section \<open>Properties of the Label Scout\<close>

text \<open>
  The documented behaviour of \<open>find_label_before\<close> where the template does not sit at
  the top of the script: with a single occurrence at a position \<open>i > 0\<close> the result is
  line \<open>i - 1\<close>, and with no occurrence or several the result is the empty string.
\<close>

lemma find_label_before_unique:
  "find_matches code tpl = [i] \<Longrightarrow> 0 < i \<Longrightarrow> find_label_before code tpl = Inr (code ! (i - 1))"
proof -
  assume m: "find_matches code tpl = [i]" and pos: "0 < i"
  have "i \<in> set (find_matches code tpl)" using m by simp
  then have "i < nat (int (length code) - int (length tpl) + 1)"
    by (simp add: find_matches_def Let_def)
  then have "i - 1 < length code" using pos by linarith
  with m pos show ?thesis
    by (simp add: find_label_before_def py_index_def nat_diff_distrib' int_ops)
qed

lemma find_label_before_ambiguous:
  "length (find_matches code tpl) \<noteq> 1 \<Longrightarrow> find_label_before code tpl = Inr []"
  by (simp add: find_label_before_def)

text \<open>
  C4, at the input where it fails. The template \<open>add (local-int 0) 2 (global-int 6625)\<close>
  occurs exactly once, in the first line of a two-line script. No line precedes it; the
  index \<open>matches[0] - 1\<close> is \<open>-1\<close>, and \<open>find_label_before\<close> returns the last line of
  the script, which follows the occurrence.
\<close>

theorem find_label_before_first_line:
  "find_matches [str ''add (local-int 0) 2 (global-int 6625)'', str ''x'']
     new_char_text_box_label_template = [0] \<and>
   find_label_before [str ''add (local-int 0) 2 (global-int 6625)'', str ''x'']
     new_char_text_box_label_template = Inr (str ''x'')"
proof -
  have u: "[0 ..< nat (int (length [a, b :: ustr]) - int (length [c :: ustr]) + 1)] = [0, 1]"
    for a b c
    by (simp add: upt_conv_Cons)
  have m: "find_matches [str ''add (local-int 0) 2 (global-int 6625)'', str ''x'']
     new_char_text_box_label_template = [0]"
    unfolding find_matches_def new_char_text_box_label_template_def Let_def u
    by (simp add: str_def)
  show ?thesis unfolding find_label_before_def Let_def m
    by (simp add: py_index_def)
qed

section \<open>Properties of the Code Generator\<close>

text \<open>
  C5, at the input where it fails. The sub-box is the one line \<open>a"b\<close>, the code points
  97, 34, 98. The \<open>concat\<close> instruction carries \<open>a'b\<close> (34 replaced by 39), while the
  \<open>show-text\<close> instruction of the same line carries \<open>a"b\<close> as it came: the two
  payloads differ. The standard variant replaces the quote in its \<open>show-text\<close>.
\<close>

theorem create_text_box_code_concat_quote:
  "create_text_box_code_concat [[97, 34, 98]] =
     [[], show_text [97, 34, 98], concat_bbb [97, 39, 98], []] \<and>
   create_text_box_code \<lparr>current_char_label = [], current_narr_label = []\<rparr>
       [[97, 34, 98]] (str ''Narrator'') =
     [[], show_text [97, 39, 98], str ''wait-for-input 0'', str ''end-text-line 0'', []]"
proof -
  have r: "replace shitter safe_shitter [97, 34, 98] = [97, 39, 98]"
    by (simp add: shitter_def safe_shitter_def replace_def startswith_def)
  show ?thesis
    by (simp add: create_text_box_code_concat_def create_text_box_code_def r newline_def Let_def)
qed

section \<open>Properties of the reconciliation\<close>

lemma py_index_last: "cs \<noteq> [] \<Longrightarrow> py_index cs (- 1) = Inr (last cs)"
  by (cases cs rule: rev_cases) (auto simp: py_index_def nth_append)

lemma py_index_empty: "py_index [] i = Inl IndexError"
  by (simp add: py_index_def)

lemma pop_each_spec:
  "n \<le> length lst \<Longrightarrow>
   pop_each n lst = (take (length lst - n) lst, map (\<lambda>x. [x]) (rev (drop (length lst - n) lst)))"
proof (induction n arbitrary: lst)
  case 0
  then show ?case by simp
next
  case (Suc n)
  then obtain xs x where lst: "lst = xs @ [x]"
    by (cases lst rule: rev_cases) auto
  with Suc.prems have "n \<le> length xs" by simp
  from Suc.IH [OF this] lst show ?case by simp
qed

lemma length_rechunk: "length (rechunk d r i k flat) = k"
  by (induction k arbitrary: i flat) (auto simp: Let_def)

text \<open>
  C2, as amended. When \<open>jp_boxes\<close> and \<open>en_containers\<close> are both empty or both
  non-empty and no container handed in is empty, \<open>reconcile\<close> returns a list with one
  container per element of \<open>jp_boxes\<close>, none of them empty. \<open>create_english_box\<close>
  calls it so: both lists come from \<open>split\<close>, and \<open>correct_en_box\<close> returns at least
  one sub-box.
\<close>

theorem reconcile_cardinality:
  assumes "jp = [] \<longleftrightarrow> cs = []" and "[] \<notin> set cs"
  shows "\<exists>r. reconcile jp cs = Inr r \<and> length r = length jp \<and> [] \<notin> set r"
proof -
  consider (less) "length cs < length jp" | (more) "length jp < length cs" | (eq) "length jp = length cs"
    by linarith
  then show ?thesis
  proof cases
    case less
    with assms have ne: "cs \<noteq> []" by auto
    then have lastin: "last cs \<in> set cs" by simp
    with assms have lne: "last cs \<noteq> []" by metis
    let ?need = "length jp - length cs"
    show ?thesis
    proof (cases "?need < length (last cs)")
      case True
      then have p: "pop_each ?need (last cs) =
        (take (length (last cs) - ?need) (last cs),
         map (\<lambda>x. [x]) (rev (drop (length (last cs) - ?need) (last cs))))"
        by (intro pop_each_spec) simp
      let ?keep = "take (length (last cs) - ?need) (last cs)"
      let ?new = "map (\<lambda>x. [x]) (rev (drop (length (last cs) - ?need) (last cs)))"
      have res: "reconcile jp cs = Inr (butlast cs @ [?keep] @ rev ?new)"
        using less ne True p by (simp add: reconcile_def py_index_last Let_def)
      have "length (butlast cs) + 1 + ?need = length jp"
        using ne less by (cases cs rule: rev_cases) auto
      then have len: "length (butlast cs @ [?keep] @ rev ?new) = length jp"
        using True by simp
      have "[] \<notin> set (butlast cs)" using assms(2) by (meson in_set_butlastD)
      moreover have "?keep \<noteq> []" using True lne by simp
      moreover have "[] \<notin> set (rev ?new)" by auto
      ultimately have "[] \<notin> set (butlast cs @ [?keep] @ rev ?new)" by auto
      with res len show ?thesis by blast
    next
      case False
      then show ?thesis using less ne
        by (auto simp: reconcile_def py_index_last Let_def length_rechunk)
    qed
  next
    case more
    with assms have jne: "jp \<noteq> []" by auto
    then have kne: "take (length jp) cs \<noteq> []" using more by auto
    have "set (butlast (take (length jp) cs)) \<subseteq> set cs"
      by (meson in_set_butlastD in_set_takeD subsetI)
    then have a: "[] \<notin> set (butlast (take (length jp) cs))" using assms(2) by auto
    have "last (take (length jp) cs) \<in> set cs" using kne
      by (meson in_set_takeD last_in_set)
    then have b: "last (take (length jp) cs) \<noteq> []" using assms(2) by metis
    show ?thesis using more kne a b
      by (auto simp: reconcile_def Let_def)
  next
    case eq
    then show ?thesis using assms by (simp add: reconcile_def)
  qed
qed

theorem reconcile_cardinality_witness:
  "reconcile [str ''A'', str ''B'', str ''C'']
     [[str ''x1'', str ''x2'', str ''x3'', str ''x4'']] =
     Inr [[str ''x1'', str ''x2''], [str ''x3''], [str ''x4'']]"
proof -
  let ?jp = "[str ''A'', str ''B'', str ''C'']"
  let ?cs = "[[str ''x1'', str ''x2'', str ''x3'', str ''x4'']]"
  have "(?jp = []) = (?cs = [])" and "[] \<notin> set ?cs" by simp_all
  from reconcile_cardinality [OF this]
  obtain r where "reconcile ?jp ?cs = Inr r" by blast
  moreover have "reconcile ?jp ?cs = Inr [[str ''x1'', str ''x2''], [str ''x3''], [str ''x4'']]"
    by (simp add: reconcile_def py_index_def Let_def numeral_2_eq_2 numeral_3_eq_3)
  ultimately show ?thesis by simp
qed

text \<open>
  C2 as stated fails: with boxes and no container, and with containers and no box,
  \<open>en_containers[-1]\<close> raises \<open>IndexError\<close>; and when the counts match the
  containers are returned as they are, an empty one included.
\<close>

theorem reconcile_counterexample:
  "reconcile [str ''A''] [] = Inl IndexError \<and>
   reconcile ([] :: ustr list) [[str ''a1'']] = Inl IndexError \<and>
   reconcile [str ''A''] [[]] = Inr [[]]"
  by (simp add: reconcile_def py_index_def)

section \<open>Properties of the wrapping\<close>

lemma split_on_nonempty: "split_on c s \<noteq> []"
  by (induction s) (auto split: list.splits)

lemma split_on_no_sep: "c \<notin> set s \<Longrightarrow> split_on c s = [s]"
  by (induction s) auto

lemma split_on_append_sep: "c \<notin> set x \<Longrightarrow> split_on c (x @ c # ys) = x # split_on c ys"
  by (induction x) auto

lemma split_on_join:
  "lns \<noteq> [] \<Longrightarrow> \<forall>l \<in> set lns. c \<notin> set l \<Longrightarrow> split_on c (join [c] lns) = lns"
proof (induction "[c]" lns rule: join.induct)
  case 1
  then show ?case by simp
next
  case (2 x)
  then show ?case by (simp add: split_on_no_sep)
next
  case (3 x y ys)
  then show ?case by (simp add: split_on_append_sep)
qed

lemma split_on_parts: "w \<in> set (split_on c s) \<Longrightarrow> c \<notin> set w \<and> set w \<subseteq> set s"
proof (induction s arbitrary: w)
  case Nil
  then show ?case by simp
next
  case (Cons x s)
  show ?case
  proof (cases "x = c")
    case True
    with Cons show ?thesis by auto
  next
    case False
    obtain v vs where sp: "split_on c s = v # vs"
      using split_on_nonempty [of c s] by (cases "split_on c s") auto
    with Cons.prems False have "w = x # v \<or> w \<in> set vs" by simp
    then show ?thesis
    proof
      assume "w = x # v"
      moreover have "c \<notin> set v \<and> set v \<subseteq> set s" using Cons.IH [of v] sp by simp
      ultimately show ?thesis using False by auto
    next
      assume "w \<in> set vs"
      then have "c \<notin> set w \<and> set w \<subseteq> set s" using Cons.IH [of w] sp by simp
      then show ?thesis by auto
    qed
  qed
qed

lemma flush_good:
  assumes lns: "\<forall>l \<in> set lns. newline \<notin> set l \<and> (measure_text_width l \<le> mc \<or> l \<in> W)"
    and len: "int (length lns) \<le> ml"
    and bxs: "\<forall>b \<in> set bxs. int (length (split_on newline b)) \<le> ml \<and>
               (\<forall>l \<in> set (split_on newline b). measure_text_width l \<le> mc \<or> l \<in> W)"
  shows "\<forall>b \<in> set (fst (flush bxs lns)). int (length (split_on newline b)) \<le> ml \<and>
               (\<forall>l \<in> set (split_on newline b). measure_text_width l \<le> mc \<or> l \<in> W)"
proof (cases "lns = []")
  case True
  with bxs show ?thesis by (simp add: flush_def)
next
  case False
  with lns have "split_on newline (join [newline] lns) = lns"
    by (intro split_on_join) auto
  with False lns len bxs show ?thesis by (auto simp: flush_def)
qed

lemma wrap_words_good:
  assumes "1 \<le> ml"
  shows "\<forall>w \<in> set ws. newline \<notin> set w \<and> w \<in> W \<Longrightarrow>
    \<forall>l \<in> set lns. newline \<notin> set l \<and> (measure_text_width l \<le> mc \<or> l \<in> W) \<Longrightarrow>
    int (length lns) \<le> ml \<Longrightarrow>
    \<forall>b \<in> set bxs. int (length (split_on newline b)) \<le> ml \<and>
               (\<forall>l \<in> set (split_on newline b). measure_text_width l \<le> mc \<or> l \<in> W) \<Longrightarrow>
    \<forall>b \<in> set (wrap_words ml mc bxs lns ws). int (length (split_on newline b)) \<le> ml \<and>
               (\<forall>l \<in> set (split_on newline b). measure_text_width l \<le> mc \<or> l \<in> W)"
proof (induction ws arbitrary: bxs lns)
  case Nil
  from flush_good [OF Nil(2) Nil(3) Nil(4)] show ?case by simp
next
  case (Cons w ws)
  let ?G = "\<lambda>b. int (length (split_on newline b)) \<le> ml \<and>
               (\<forall>l \<in> set (split_on newline b). measure_text_width l \<le> mc \<or> l \<in> W)"
  let ?L = "\<lambda>l. newline \<notin> set l \<and> (measure_text_width l \<le> mc \<or> l \<in> W)"
  have ws: "\<forall>w \<in> set ws. newline \<notin> set w \<and> w \<in> W" and w: "?L w"
    using Cons.prems(1) by auto
  have one: "\<forall>l \<in> set [w]. ?L l" using w by simp
  have len1: "int (length [w]) \<le> ml" using assms by simp
  show ?case
  proof (cases "lns = []")
    case True
    have "\<forall>b \<in> set (wrap_words ml mc bxs [w] ws). ?G b"
      by (rule Cons.IH [OF ws one len1 Cons.prems(4)])
    with True show ?thesis by simp
  next
    case False
    let ?cand = "last lns @ [space] @ w"
    show ?thesis
    proof (cases "measure_text_width ?cand \<le> mc")
      case True
      have ll: "?L (last lns)" using False Cons.prems(2) by simp
      have "newline \<notin> set ?cand" using ll w by (simp add: space_def newline_def)
      with True have c: "?L ?cand" by simp
      have bl: "\<forall>l \<in> set (butlast lns). ?L l" using Cons.prems(2) by (meson in_set_butlastD)
      have l2: "\<forall>l \<in> set (butlast lns @ [?cand]). ?L l" using bl c by simp
      have n2: "int (length (butlast lns @ [?cand])) \<le> ml" using False Cons.prems(3) by simp
      have "\<forall>b \<in> set (wrap_words ml mc bxs (butlast lns @ [?cand]) ws). ?G b"
        by (rule Cons.IH [OF ws l2 n2 Cons.prems(4)])
      with False True show ?thesis by (simp add: Let_def)
    next
      case nofit: False
      show ?thesis
      proof (cases "int (length lns) < ml")
        case True
        have l3: "\<forall>l \<in> set (lns @ [w]). ?L l" using Cons.prems(2) w by simp
        have n3: "int (length (lns @ [w])) \<le> ml" using True by simp
        have "\<forall>b \<in> set (wrap_words ml mc bxs (lns @ [w]) ws). ?G b"
          by (rule Cons.IH [OF ws l3 n3 Cons.prems(4)])
        with False nofit True show ?thesis by (simp add: Let_def)
      next
        case full: False
        have "\<forall>b \<in> set (fst (flush bxs lns)). ?G b"
          by (rule flush_good [OF Cons.prems(2) Cons.prems(3) Cons.prems(4)])
        then have "\<forall>b \<in> set (wrap_words ml mc (fst (flush bxs lns)) [w] ws). ?G b"
          by (rule Cons.IH [OF ws one len1])
        with False nofit full show ?thesis by (simp add: Let_def)
      qed
    qed
  qed
qed

text \<open>
  C3, as amended. For every input string without a line break and every
  \<open>max_lines >= 1\<close>, every sub-box \<open>correct_en_box\<close> returns has at most
  \<open>max_lines\<close> lines, and every line of every sub-box either has visual width at most
  \<open>max_chars_per_line\<close> or is a single word of the input (a piece between two
  spaces), which the function never splits. The width counts 2 for a wide character and
  1 otherwise, as \<open>measure_text_width\<close> does.
\<close>

theorem correct_en_box_wrap:
  assumes "newline \<notin> set en_box" and "1 \<le> max_lines"
    and "b \<in> set (correct_en_box en_box max_lines max_chars_per_line)"
  shows "int (length (split_on newline b)) \<le> max_lines \<and>
         (\<forall>l \<in> set (split_on newline b).
            measure_text_width l \<le> max_chars_per_line \<or> l \<in> set (split_on space en_box))"
proof -
  have "\<forall>w \<in> set (split_on space en_box). newline \<notin> set w \<and> w \<in> set (split_on space en_box)"
    using split_on_parts [of _ space en_box] assms(1) by auto
  then have "\<forall>b \<in> set (wrap_words max_lines max_chars_per_line [] [] (split_on space en_box)).
     int (length (split_on newline b)) \<le> max_lines \<and>
     (\<forall>l \<in> set (split_on newline b).
        measure_text_width l \<le> max_chars_per_line \<or> l \<in> set (split_on space en_box))"
    using assms(2) by (intro wrap_words_good) auto
  with assms(3) show ?thesis by (simp add: correct_en_box_def)
qed

theorem correct_en_box_wrap_witness:
  "correct_en_box (str ''ab cd'') 1 3 = [str ''ab'', str ''cd''] \<and>
   int (length (split_on newline (str ''ab''))) \<le> 1 \<and>
   measure_text_width (str ''ab'') \<le> 3"
proof -
  have v: "correct_en_box (str ''ab cd'') 1 3 = [str ''ab'', str ''cd'']"
    by (simp add: correct_en_box_def space_def measure_text_width_def is_wide_char_def
          flush_def str_def)
  have n: "newline \<notin> set (str ''ab cd'')" by (simp add: newline_def str_def)
  have m: "str ''ab'' \<in> set (correct_en_box (str ''ab cd'') 1 3)" using v by simp
  have sp: "split_on newline (str ''ab'') = [str ''ab'']" by (simp add: newline_def str_def)
  have w: "str ''ab'' \<notin> set (split_on space (str ''ab cd'')) \<or> measure_text_width (str ''ab'') \<le> 3"
    by (simp add: measure_text_width_def is_wide_char_def str_def)
  have one: "(1::int) \<le> 1" by simp
  from correct_en_box_wrap [OF n one m] sp
  have "int (length (split_on newline (str ''ab''))) \<le> 1"
    and "measure_text_width (str ''ab'') \<le> 3 \<or> str ''ab'' \<in> set (split_on space (str ''ab cd''))"
    by simp_all
  with v w show ?thesis by blast
qed

text \<open>
  C3 as stated fails. The word \<open>abcdef\<close> has width 6 and is returned as one line
  under a budget of 3; and an input that holds a line break, \<open>a\<close>, newline, \<open>b\<close>,
  comes back as one sub-box of two lines under \<open>max_lines = 1\<close>.
\<close>

theorem correct_en_box_counterexample:
  "correct_en_box (str ''abcdef'') 1 3 = [str ''abcdef''] \<and>
   split_on newline (str ''abcdef'') = [str ''abcdef''] \<and>
   measure_text_width (str ''abcdef'') = 6 \<and>
   correct_en_box [97, 10, 98] 1 5 = [[97, 10, 98]] \<and>
   split_on newline [97, 10, 98] = [[97], [98]]"
  by (simp add: correct_en_box_def space_def measure_text_width_def is_wide_char_def
        flush_def newline_def str_def)

section \<open>Properties of the overlay step\<close>

lemma split_on_append_any: "split_on c (xs @ c # ys) = split_on c xs @ split_on c ys"
proof (induction xs)
  case Nil
  then show ?case by simp
next
  case (Cons x xs)
  obtain w ws where sp: "split_on c xs = w # ws"
    using split_on_nonempty [of c xs] by (cases "split_on c xs") auto
  with Cons show ?case by simp
qed

lemma join_split: "join [c] (split_on c s) = s"
proof (induction s)
  case Nil
  then show ?case by simp
next
  case (Cons x s)
  obtain w ws where sp: "split_on c s = w # ws"
    using split_on_nonempty [of c s] by (cases "split_on c s") auto
  show ?case
  proof (cases "x = c")
    case True
    with Cons sp show ?thesis by simp
  next
    case False
    from Cons sp have "join [c] (w # ws) = s" by simp
    then have "join [c] ((x # w) # ws) = x # s" by (cases ws) auto
    with False sp show ?thesis by simp
  qed
qed

lemma join_append:
  "xs \<noteq> [] \<Longrightarrow> ys \<noteq> [] \<Longrightarrow> join sep (xs @ ys) = join sep xs @ sep @ join sep ys"
proof (induction sep xs rule: join.induct)
  case (1 sep)
  then show ?case by simp
next
  case (2 sep x)
  then show ?case by (cases ys) auto
next
  case (3 sep x y zs)
  then show ?case by simp
qed

lemma two_occurrences:
  assumes "1 < count_char c s"
  shows "\<exists>pre payload post. s = pre @ [c] @ payload @ [c] @ post \<and>
           c \<notin> set payload \<and> c \<notin> set post"
proof -
  have "c \<in> set s"
  proof (rule ccontr)
    assume "c \<notin> set s"
    then have "filter (\<lambda>x. x = c) s = []" by (auto simp: filter_empty_conv)
    with assms show False by (simp add: count_char_def)
  qed
  then obtain a post where s: "s = a @ c # post" and post: "c \<notin> set post"
    using split_list_last [of c s] by blast
  have "filter (\<lambda>x. x = c) post = []" using post by (auto simp: filter_empty_conv)
  with assms s have "0 < length (filter (\<lambda>x. x = c) a)" by (simp add: count_char_def)
  then have "c \<in> set a" by (auto simp: filter_empty_conv)
  then obtain pre payload where a: "a = pre @ c # payload" and pl: "c \<notin> set payload"
    using split_list_last [of c a] by blast
  from s a post pl show ?thesis by auto
qed

lemma swap_line_plain: "count_char 34 (strip l) \<le> 1 \<Longrightarrow> swap_line rep l = l"
  by (simp add: swap_line_def)

lemma swap_line_quoted:
  assumes st: "strip l = pre @ [34] @ payload @ [34] @ post"
    and pl: "34 \<notin> set payload" and po: "34 \<notin> set post"
  shows "swap_line rep l = pre @ [34] @ replace_str rep payload @ [34] @ post"
proof -
  have cnt: "1 < count_char 34 (strip l)" by (simp add: st count_char_def)
  have "split_on 34 (strip l) = split_on 34 pre @ split_on 34 (payload @ 34 # post)"
    using split_on_append_any [of 34 pre "payload @ 34 # post"] by (simp add: st)
  also have "split_on 34 (payload @ 34 # post) = [payload, post]"
    using pl po by (simp add: split_on_append_sep split_on_no_sep)
  finally have sp: "split_on 34 (strip l) = split_on 34 pre @ [payload, post]" .
  let ?P = "split_on 34 pre"
  have ne: "?P \<noteq> []" by (rule split_on_nonempty)
  have k: "length (?P @ [payload, post]) - 2 = length ?P" by simp
  have upd: "(?P @ [payload, post])[length ?P := replace_str rep payload] =
             ?P @ [replace_str rep payload, post]"
    by (simp add: list_update_append)
  have nth: "(?P @ [payload, post]) ! length ?P = payload" by (simp add: nth_append)
  have "join [34] (?P @ [replace_str rep payload, post]) =
        join [34] ?P @ [34] @ join [34] [replace_str rep payload, post]"
    using ne by (intro join_append) simp_all
  also have "\<dots> = pre @ [34] @ replace_str rep payload @ [34] @ post"
    by (simp add: join_split)
  finally have j: "join [34] (?P @ [replace_str rep payload, post]) =
        pre @ [34] @ replace_str rep payload @ [34] @ post" .
  show ?thesis
    unfolding swap_line_def Let_def sp k nth upd using cnt j by simp
qed

text \<open>
  C9, as amended. \<open>replace_manual_strings\<close> raises exactly when the two scripts differ
  in their number of lines, and then it returns no script at all. When the numbers are
  equal it returns a script of the same length. A position keeps the original line when
  the edited line equals it, or when the edited line with the white space at both ends
  removed does not start with \<open>set-string\<close>. At every other position the result is
  the edited line itself when its stripped form holds at most one double quote (code
  point 34), and otherwise the stripped form \<open>pre"payload"post\<close>, cut at its last two
  double quotes, with \<open>replace_str\<close> applied to \<open>payload\<close>.
\<close>

theorem replace_manual_strings_overlay:
  "((\<exists>e. replace_manual_strings rep fs es = Inl e) \<longleftrightarrow> length fs \<noteq> length es) \<and>
   (length fs \<noteq> length es \<longrightarrow> replace_manual_strings rep fs es = Inl ValueError) \<and>
   (length fs = length es \<longrightarrow>
      (\<exists>r. replace_manual_strings rep fs es = Inr r \<and> length r = length fs \<and>
         (\<forall>i < length fs.
            (fs ! i = es ! i \<or> \<not> startswith (strip (es ! i)) (str ''set-string'')
               \<longrightarrow> r ! i = fs ! i) \<and>
            (fs ! i \<noteq> es ! i \<and> startswith (strip (es ! i)) (str ''set-string'') \<and>
             count_char 34 (strip (es ! i)) \<le> 1
               \<longrightarrow> r ! i = es ! i) \<and>
            (fs ! i \<noteq> es ! i \<and> startswith (strip (es ! i)) (str ''set-string'') \<and>
             1 < count_char 34 (strip (es ! i))
               \<longrightarrow> (\<exists>pre payload post.
                      strip (es ! i) = pre @ [34] @ payload @ [34] @ post \<and>
                      34 \<notin> set payload \<and> 34 \<notin> set post \<and>
                      r ! i = pre @ [34] @ replace_str rep payload @ [34] @ post)))))"
proof -
  have err: "(\<exists>e. replace_manual_strings rep fs es = Inl e) \<longleftrightarrow> length fs \<noteq> length es"
    by (simp add: replace_manual_strings_def)
  have val: "length fs \<noteq> length es \<longrightarrow> replace_manual_strings rep fs es = Inl ValueError"
    by (simp add: replace_manual_strings_def)
  have ok: "\<exists>r. replace_manual_strings rep fs es = Inr r \<and> length r = length fs \<and>
         (\<forall>i < length fs.
            (fs ! i = es ! i \<or> \<not> startswith (strip (es ! i)) (str ''set-string'')
               \<longrightarrow> r ! i = fs ! i) \<and>
            (fs ! i \<noteq> es ! i \<and> startswith (strip (es ! i)) (str ''set-string'') \<and>
             count_char 34 (strip (es ! i)) \<le> 1
               \<longrightarrow> r ! i = es ! i) \<and>
            (fs ! i \<noteq> es ! i \<and> startswith (strip (es ! i)) (str ''set-string'') \<and>
             1 < count_char 34 (strip (es ! i))
               \<longrightarrow> (\<exists>pre payload post.
                      strip (es ! i) = pre @ [34] @ payload @ [34] @ post \<and>
                      34 \<notin> set payload \<and> 34 \<notin> set post \<and>
                      r ! i = pre @ [34] @ replace_str rep payload @ [34] @ post)))"
    if len: "length fs = length es"
  proof -
    define pick where "pick = (\<lambda>(orig_line, edited_line).
        if orig_line \<noteq> edited_line \<and> startswith (strip edited_line) (str ''set-string'')
        then swap_line rep edited_line else orig_line)"
    define r where "r = map pick (zip fs es)"
    have res: "replace_manual_strings rep fs es = Inr r"
      using len by (simp add: replace_manual_strings_def r_def pick_def)
    have lr: "length r = length fs" using len by (simp add: r_def)
    have at: "r ! i = (if fs ! i \<noteq> es ! i \<and> startswith (strip (es ! i)) (str ''set-string'')
                       then swap_line rep (es ! i) else fs ! i)" if "i < length fs" for i
      using that len by (simp add: r_def pick_def)
    have each: "(fs ! i = es ! i \<or> \<not> startswith (strip (es ! i)) (str ''set-string'')
               \<longrightarrow> r ! i = fs ! i) \<and>
            (fs ! i \<noteq> es ! i \<and> startswith (strip (es ! i)) (str ''set-string'') \<and>
             count_char 34 (strip (es ! i)) \<le> 1
               \<longrightarrow> r ! i = es ! i) \<and>
            (fs ! i \<noteq> es ! i \<and> startswith (strip (es ! i)) (str ''set-string'') \<and>
             1 < count_char 34 (strip (es ! i))
               \<longrightarrow> (\<exists>pre payload post.
                      strip (es ! i) = pre @ [34] @ payload @ [34] @ post \<and>
                      34 \<notin> set payload \<and> 34 \<notin> set post \<and>
                      r ! i = pre @ [34] @ replace_str rep payload @ [34] @ post))"
      if i: "i < length fs" for i
    proof (intro conjI impI)
      assume "fs ! i = es ! i \<or> \<not> startswith (strip (es ! i)) (str ''set-string'')"
      then show "r ! i = fs ! i" using at [OF i] by auto
    next
      assume "fs ! i \<noteq> es ! i \<and> startswith (strip (es ! i)) (str ''set-string'') \<and>
              count_char 34 (strip (es ! i)) \<le> 1"
      then show "r ! i = es ! i" using at [OF i] by (simp add: swap_line_plain)
    next
      assume a: "fs ! i \<noteq> es ! i \<and> startswith (strip (es ! i)) (str ''set-string'') \<and>
              1 < count_char 34 (strip (es ! i))"
      then obtain pre payload post where d: "strip (es ! i) = pre @ [34] @ payload @ [34] @ post"
        "34 \<notin> set payload" "34 \<notin> set post"
        using two_occurrences [of 34 "strip (es ! i)"] by blast
      from a at [OF i] have "r ! i = swap_line rep (es ! i)" by simp
      with swap_line_quoted [OF d, of rep] d
      show "\<exists>pre payload post.
              strip (es ! i) = pre @ [34] @ payload @ [34] @ post \<and>
              34 \<notin> set payload \<and> 34 \<notin> set post \<and>
              r ! i = pre @ [34] @ replace_str rep payload @ [34] @ post"
        by metis
    qed
    from res lr each show ?thesis by blast
  qed
  from err val ok show ?thesis by blast
qed

theorem replace_manual_strings_overlay_witness:
  "replace_manual_strings [(str ''q'', str ''ZZ'')] [str ''a'', str ''set-string x'']
     [str ''b'', str ''  set-string 1 '' @ [34] @ str ''q q'' @ [34] @ str '' ; '']
     = Inr [str ''a'', str ''set-string 1 '' @ [34] @ str ''ZZ ZZ'' @ [34] @ str '' ;''] \<and>
   replace_manual_strings [(str ''q'', str ''ZZ'')] [str ''a'', str ''set-string x''] [str ''b'']
     = Inl ValueError"
proof -
  let ?rep = "[(str ''q'', str ''ZZ'')]"
  let ?fs = "[str ''a'', str ''set-string x'']"
  let ?e1 = "str ''  set-string 1 '' @ [34] @ str ''q q'' @ [34] @ str '' ; ''"
  let ?es = "[str ''b'', ?e1]"
  have st: "strip ?e1 = str ''set-string 1 '' @ [34] @ str ''q q'' @ [34] @ str '' ;''"
    by (simp add: strip_def lstrip_def rstrip_def isspace_def str_def)
  have sw: "startswith (strip ?e1) (str ''set-string'')"
    unfolding st by (simp add: startswith_def str_def)
  have ne: "str ''set-string x'' \<noteq> ?e1" by (simp add: str_def)
  have nb: "\<not> startswith (strip (str ''b'')) (str ''set-string'')"
    by (simp add: startswith_def strip_def lstrip_def rstrip_def isspace_def str_def)
  have rs: "replace_str ?rep (str ''q q'') = str ''ZZ ZZ''"
    by (simp add: replace_str_def replace_def startswith_def str_def)
  have q: "34 \<notin> set (str ''q q'')" "34 \<notin> set (str '' ;'')" by (simp_all add: str_def)
  have swp: "swap_line ?rep ?e1 =
      str ''set-string 1 '' @ [34] @ replace_str ?rep (str ''q q'') @ [34] @ str '' ;''"
    by (rule swap_line_quoted [OF st q])
  from replace_manual_strings_overlay [of ?rep ?fs ?es]
  obtain r where r: "replace_manual_strings ?rep ?fs ?es = Inr r" "length r = 2"
    and at: "\<forall>i < length ?fs.
       (?fs ! i = ?es ! i \<or> \<not> startswith (strip (?es ! i)) (str ''set-string'')
          \<longrightarrow> r ! i = ?fs ! i)"
    by auto
  from at [rule_format, of 0] nb have r0: "r ! 0 = str ''a''" by simp
  have "r ! 1 = swap_line ?rep ?e1"
    using r(1) sw ne by (auto simp: replace_manual_strings_def)
  with swp rs have r1: "r ! 1 = str ''set-string 1 '' @ [34] @ str ''ZZ ZZ'' @ [34] @ str '' ;''"
    by simp
  from r(2) obtain x y where "r = [x, y]"
    by (cases r; cases "tl r"; cases "tl (tl r)") auto
  with r0 r1 have "r = [str ''a'', str ''set-string 1 '' @ [34] @ str ''ZZ ZZ'' @ [34] @ str '' ;'']"
    by simp
  moreover from replace_manual_strings_overlay [of ?rep ?fs "[str ''b'']"]
  have "replace_manual_strings ?rep ?fs [str ''b''] = Inl ValueError" by simp
  ultimately show ?thesis using r(1) by simp
qed

text \<open>
  C9 as stated fails. The edited line \<open> set-string x\<close>, with a leading blank, does not
  start with \<open>set-string\<close> and still replaces the original line; and the edited line
  \<open> set-string "x"\<close> comes back without its leading blank, so what is swapped in is
  not the edited line.
\<close>

theorem replace_manual_strings_counterexample:
  "replace_manual_strings [] [str ''a''] [str '' set-string x''] = Inr [str '' set-string x''] \<and>
   \<not> startswith (str '' set-string x'') (str ''set-string'') \<and>
   replace_manual_strings [] [str ''a''] [[32] @ str ''set-string '' @ [34, 120, 34]] =
     Inr [str ''set-string '' @ [34, 120, 34]]"
  by (simp add: replace_manual_strings_def swap_line_def count_char_def replace_str_def
        startswith_def strip_def lstrip_def rstrip_def isspace_def str_def)

section \<open>Properties of the Script Splicer\<close>

lemma py_index_nat: "0 \<le> i \<Longrightarrow> i < int (length xs) \<Longrightarrow> py_index xs i = Inr (xs ! nat i)"
  by (simp add: py_index_def)

lemma box_end_first:
  "0 \<le> lookat \<Longrightarrow> lookat < e \<Longrightarrow> e < int (length scr) \<Longrightarrow>
   \<not> is_text_cmd (strip (scr ! nat e)) \<Longrightarrow>
   \<forall>k. lookat < k \<and> k < e \<longrightarrow> is_text_cmd (strip (scr ! nat k)) \<Longrightarrow>
   box_end scr lookat = Inr e"
proof (induction "nat (e - lookat)" arbitrary: lookat)
  case 0
  then show ?case by simp
next
  case (Suc n)
  have idx: "py_index scr (lookat + 1) = Inr (scr ! nat (lookat + 1))"
    using Suc.prems by (intro py_index_nat) auto
  show ?case
  proof (cases "lookat + 1 = e")
    case True
    with idx Suc.prems(4) show ?thesis by (subst box_end.simps) simp
  next
    case False
    with Suc.prems have lt: "lookat + 1 < e" by simp
    with Suc.prems(5) have t: "is_text_cmd (strip (scr ! nat (lookat + 1)))" by simp
    have n: "n = nat (e - (lookat + 1))" using Suc.hyps(2) by simp
    have "box_end scr (lookat + 1) = Inr e"
      using Suc.prems lt by (intro Suc.hyps(1) [OF n]) auto
    with idx t show ?thesis by (subst box_end.simps) simp
  qed
qed

lemma length_split_join: "length xs \<le> length (split_on c (join [c] xs))"
proof (induction "[c]" xs rule: join.induct)
  case 1
  then show ?case by simp
next
  case (2 x)
  have "split_on c x \<noteq> []" by (rule split_on_nonempty)
  then show ?case by (cases "split_on c x") auto
next
  case (3 x y ys)
  have "split_on c x \<noteq> []" by (rule split_on_nonempty)
  then have "1 \<le> length (split_on c x)" by (cases "split_on c x") auto
  moreover have "split_on c (join [c] (x # y # ys)) = split_on c x @ split_on c (join [c] (y # ys))"
    using split_on_append_any [of c x "join [c] (y # ys)"] by simp
  ultimately show ?case using 3 by simp
qed

lemma reconcile_length:
  assumes "reconcile jp cs = Inr r"
  shows "length r = length jp"
proof -
  consider (less) "length cs < length jp" | (more) "length jp < length cs" | (eq) "length jp = length cs"
    by linarith
  then show ?thesis
  proof cases
    case less
    have ne: "cs \<noteq> []"
    proof
      assume "cs = []"
      with less assms show False by (simp add: reconcile_def py_index_def)
    qed
    let ?need = "length jp - length cs"
    have bl: "length (butlast cs) + 1 + ?need = length jp"
      using ne less by (cases cs rule: rev_cases) auto
    show ?thesis
    proof (cases "?need < length (last cs)")
      case True
      then have "pop_each ?need (last cs) =
        (take (length (last cs) - ?need) (last cs),
         map (\<lambda>x. [x]) (rev (drop (length (last cs) - ?need) (last cs))))"
        by (intro pop_each_spec) simp
      with assms less ne True have "r = butlast cs @ [take (length (last cs) - ?need) (last cs)] @
             rev (map (\<lambda>x. [x]) (rev (drop (length (last cs) - ?need) (last cs))))"
        by (simp add: reconcile_def py_index_last Let_def)
      with bl True show ?thesis by simp
    next
      case False
      with assms less ne show ?thesis
        by (auto simp: reconcile_def py_index_last Let_def length_rechunk)
    qed
  next
    case more
    with assms show ?thesis
      by (auto simp: reconcile_def Let_def split: if_splits)
  next
    case eq
    with assms show ?thesis by (simp add: reconcile_def)
  qed
qed

lemma create_english_box_length:
  assumes "create_english_box (join [newline] (map b_text bs)) en mxl mxc = Inr cs"
  shows "length bs \<le> length cs"
proof -
  from assms have "length cs = length (split_on newline (join [newline] (map b_text bs)))"
    using reconcile_length by (simp add: create_english_box_def Let_def)
  with length_split_join [of "map b_text bs" newline] show ?thesis by simp
qed

lemma choose_code_spec:
  "choose_code lb scene scr acc co cc zs = Inr cm \<Longrightarrow>
   length cm = length acc + length zs \<and> take (length acc) cm = acc \<and>
   (\<forall>k < length zs.
      cm ! (length acc + k) = create_text_box_code_SG (snd (zs ! k)) \<or>
      cm ! (length acc + k) = create_text_box_code_concat (snd (zs ! k)) \<or>
      cm ! (length acc + k) = create_text_box_code lb (snd (zs ! k)) (b_speaker (fst (zs ! k)))) \<and>
   (contains scene (str ''SG'') \<longrightarrow>
      (\<forall>k < length zs. cm ! (length acc + k) = create_text_box_code_SG (snd (zs ! k))))"
proof (induction zs arbitrary: acc co cc)
  case Nil
  then show ?case by simp
next
  case (Cons z zs)
  obtain jb ec where z: "z = (jb, ec)" by (cases z)
  from Cons.prems z obtain g cc' where
    rec: "choose_code lb scene scr (acc @ [g]) (co + b_offset jb + 2) cc' zs = Inr cm"
    and g: "g = create_text_box_code_SG ec \<or> g = create_text_box_code_concat ec \<or>
            g = create_text_box_code lb ec (b_speaker jb)"
    and sg: "contains scene (str ''SG'') \<longrightarrow> g = create_text_box_code_SG ec"
    by (auto simp: Let_def split: if_splits sum.splits)
  from Cons.IH [OF rec] have
    len: "length cm = length (acc @ [g]) + length zs"
    and tk: "take (length (acc @ [g])) cm = acc @ [g]"
    and each: "\<forall>k < length zs.
      cm ! (length (acc @ [g]) + k) = create_text_box_code_SG (snd (zs ! k)) \<or>
      cm ! (length (acc @ [g]) + k) = create_text_box_code_concat (snd (zs ! k)) \<or>
      cm ! (length (acc @ [g]) + k) = create_text_box_code lb (snd (zs ! k)) (b_speaker (fst (zs ! k)))"
    and sgs: "contains scene (str ''SG'') \<longrightarrow>
      (\<forall>k < length zs. cm ! (length (acc @ [g]) + k) = create_text_box_code_SG (snd (zs ! k)))"
    by blast+
  have tk1: "take (length acc) cm = acc"
  proof -
    have "take (length acc) (take (length (acc @ [g])) cm) = take (length acc) (acc @ [g])"
      using tk by simp
    then show ?thesis by (simp add: min_def)
  qed
  have at: "cm ! length acc = g"
  proof -
    have "length acc < length (acc @ [g])" by simp
    then have "take (length (acc @ [g])) cm ! length acc = cm ! length acc"
      by (rule nth_take)
    with tk show ?thesis by simp
  qed
  have e2: "cm ! (length acc + k) = create_text_box_code_SG (snd ((z # zs) ! k)) \<or>
      cm ! (length acc + k) = create_text_box_code_concat (snd ((z # zs) ! k)) \<or>
      cm ! (length acc + k) = create_text_box_code lb (snd ((z # zs) ! k)) (b_speaker (fst ((z # zs) ! k)))"
    if "k < length (z # zs)" for k
  proof (cases k)
    case 0
    with at g z show ?thesis by simp
  next
    case (Suc j)
    with that each [rule_format, of j] show ?thesis by simp
  qed
  have s2: "cm ! (length acc + k) = create_text_box_code_SG (snd ((z # zs) ! k))"
    if "k < length (z # zs)" "contains scene (str ''SG'')" for k
  proof (cases k)
    case 0
    with at sg z that(2) show ?thesis by simp
  next
    case (Suc j)
    with that sgs [rule_format, of j] show ?thesis by simp
  qed
  from len tk1 e2 s2 show ?case by simp
qed

lemma choose_code_head:
  assumes "choose_code lb scene scr (acc @ [g]) co cc zs = Inr cm"
  shows "cm ! length acc = g"
proof -
  from choose_code_spec [OF assms] have tk: "take (length (acc @ [g])) cm = acc @ [g]" by blast
  have "length acc < length (acc @ [g])" by simp
  then have "take (length (acc @ [g])) cm ! length acc = cm ! length acc" by (rule nth_take)
  with tk show ?thesis by simp
qed

lemma choose_code_variant:
  "choose_code lb scene scr acc co cc zs = Inr cm \<Longrightarrow> k < length zs \<Longrightarrow>
   cm ! (length acc + k) =
     (if contains scene (str ''SG'') then create_text_box_code_SG (snd (zs ! k))
      else if cc \<or> (\<exists>j \<le> k. \<exists>ln.
                py_index scr (co + sum_list (map (\<lambda>z. b_offset (fst z) + 2) (take (Suc j) zs)))
                  = Inr ln \<and> startswith ln (str ''concat''))
      then create_text_box_code_concat (snd (zs ! k))
      else create_text_box_code lb (snd (zs ! k)) (b_speaker (fst (zs ! k))))"
proof (induction zs arbitrary: acc co cc k)
  case Nil
  then show ?case by simp
next
  case (Cons z zs)
  obtain jb ec where z: "z = (jb, ec)" by (cases z)
  let ?co = "co + (b_offset jb + 2)"
  let ?hit = "\<lambda>q. \<exists>ln. py_index scr q = Inr ln \<and> startswith ln (str ''concat'')"
  let ?g = "if contains scene (str ''SG'') then create_text_box_code_SG ec
            else if cc \<or> ?hit ?co then create_text_box_code_concat ec
            else create_text_box_code lb ec (b_speaker jb)"
  let ?cc = "if contains scene (str ''SG'') then cc else cc \<or> ?hit ?co"
  from Cons.prems(1) z have
    rec: "choose_code lb scene scr (acc @ [?g]) ?co ?cc zs = Inr cm"
    by (auto simp: Let_def add.assoc split: if_splits sum.splits)
  show ?case
  proof (cases k)
    case 0
    from choose_code_head [OF rec] have "cm ! length acc = ?g" .
    with 0 z show ?thesis by auto
  next
    case (Suc j)
    with Cons.prems(2) have j: "j < length zs" by simp
    have ex: "(\<exists>i \<le> Suc j. ?hit (co + sum_list (map (\<lambda>z. b_offset (fst z) + 2) (take (Suc i) (z # zs))))) \<longleftrightarrow>
              ?hit ?co \<or> (\<exists>i \<le> j. ?hit (?co + sum_list (map (\<lambda>z. b_offset (fst z) + 2) (take (Suc i) zs))))"
      (is "?L \<longleftrightarrow> ?R")
    proof
      assume ?L
      then obtain i where i: "i \<le> Suc j"
        and h: "?hit (co + sum_list (map (\<lambda>z. b_offset (fst z) + 2) (take (Suc i) (z # zs))))" by blast
      show ?R
      proof (cases i)
        case 0
        with h z show ?thesis by (simp add: add.assoc)
      next
        case (Suc i')
        with i h z show ?thesis by (auto simp: add.assoc)
      qed
    next
      assume ?R
      then show ?L
      proof
        assume "?hit ?co"
        then have "?hit (co + sum_list (map (\<lambda>z. b_offset (fst z) + 2) (take (Suc 0) (z # zs))))"
          using z by (simp add: add.assoc)
        then show ?L by blast
      next
        assume "\<exists>i \<le> j. ?hit (?co + sum_list (map (\<lambda>z. b_offset (fst z) + 2) (take (Suc i) zs)))"
        then obtain i where i: "i \<le> j"
          and h: "?hit (?co + sum_list (map (\<lambda>z. b_offset (fst z) + 2) (take (Suc i) zs)))" by blast
        from h z have "?hit (co + sum_list (map (\<lambda>z. b_offset (fst z) + 2) (take (Suc (Suc i)) (z # zs))))"
          by (simp add: add.assoc)
        with i show ?L by (meson Suc_le_mono)
      qed
    qed
    from Cons.IH [OF rec j] have
      "cm ! (length (acc @ [?g]) + j) =
         (if contains scene (str ''SG'') then create_text_box_code_SG (snd (zs ! j))
          else if ?cc \<or> (\<exists>i \<le> j. ?hit (?co + sum_list (map (\<lambda>z. b_offset (fst z) + 2) (take (Suc i) zs))))
          then create_text_box_code_concat (snd (zs ! j))
          else create_text_box_code lb (snd (zs ! j)) (b_speaker (fst (zs ! j))))" .
    moreover have "length (acc @ [?g]) + j = length acc + k" using Suc by simp
    ultimately show ?thesis using Suc ex by (simp only: nth_Cons_Suc) auto
  qed
qed

lemma box_end_returns:
  "0 \<le> lookat \<Longrightarrow> box_end scr lookat = Inr e \<Longrightarrow>
   lookat < e \<and> e < int (length scr) \<and> \<not> is_text_cmd (strip (scr ! nat e)) \<and>
   (\<forall>k. lookat < k \<and> k < e \<longrightarrow> is_text_cmd (strip (scr ! nat k)))"
proof (induction scr lookat rule: box_end.induct)
  case (1 scr lookat)
  from "1.prems"(2) obtain ln where
    ix: "py_index scr (lookat + 1) = Inr ln"
    by (subst (asm) box_end.simps) (auto split: sum.splits)
  from ix "1.prems"(1) have rng: "lookat + 1 < int (length scr)" and ln: "ln = scr ! nat (lookat + 1)"
    by (auto simp: py_index_def split: if_splits)
  show ?case
  proof (cases "is_text_cmd (strip ln)")
    case True
    with "1.prems"(2) ix have r: "box_end scr (lookat + 1) = Inr e"
      by (subst (asm) box_end.simps) simp
    from "1.IH" [OF ix True _ r] "1.prems"(1) have
      ih: "lookat + 1 < e \<and> e < int (length scr) \<and> \<not> is_text_cmd (strip (scr ! nat e)) \<and>
        (\<forall>k. lookat + 1 < k \<and> k < e \<longrightarrow> is_text_cmd (strip (scr ! nat k)))"
      by simp
    have "is_text_cmd (strip (scr ! nat k))" if "lookat < k \<and> k < e" for k
    proof (cases "k = lookat + 1")
      case True
      with \<open>is_text_cmd (strip ln)\<close> ln show ?thesis by simp
    next
      case False
      with that ih show ?thesis by simp
    qed
    with ih show ?thesis by auto
  next
    case False
    with "1.prems"(2) ix have "e = lookat + 1"
      by (subst (asm) box_end.simps) simp
    with False ln rng show ?thesis by auto
  qed
qed

lemma box_end_error: "box_end scr lookat = Inl x \<Longrightarrow> x = IndexError"
proof (induction scr lookat rule: box_end.induct)
  case (1 scr lookat)
  show ?case
  proof (cases "py_index scr (lookat + 1)")
    case (Inl y)
    then have "y = IndexError" by (auto simp: py_index_def split: if_splits)
    with Inl "1.prems" show ?thesis by (subst (asm) box_end.simps) simp
  next
    case (Inr ln)
    show ?thesis
    proof (cases "is_text_cmd (strip ln)")
      case True
      with "1.prems" Inr have "box_end scr (lookat + 1) = Inl x"
        by (subst (asm) box_end.simps) simp
      from "1.IH" [OF Inr True this] show ?thesis .
    next
      case False
      with "1.prems" Inr show ?thesis by (subst (asm) box_end.simps) simp
    qed
  qed
qed

lemma splice_loop_iff:
  "0 \<le> p \<Longrightarrow> \<forall>b \<in> set bs. 0 \<le> b_offset b \<Longrightarrow> i + length bs \<le> length cm \<Longrightarrow>
   splice_loop cm i p scr bs = Inr (p', scr') \<longleftrightarrow> splices cm i p scr bs p' scr'"
proof (induction bs arbitrary: i p scr)
  case Nil
  show ?case by (auto intro: splices_end elim: splices_NilE)
next
  case (Cons b bs)
  define s where "s = p + b_offset b"
  have s0: "0 \<le> s" "p \<le> s" using Cons.prems(1,2) by (simp_all add: s_def)
  have i: "i < length cm" using Cons.prems(3) by simp
  let ?g = "cm ! i"
  have ih: "splice_loop cm (i + 1) (s + int (length ?g)) scr1 bs = Inr (p', scr') \<longleftrightarrow>
            splices cm (i + 1) (s + int (length ?g)) scr1 bs p' scr'" for scr1
    using Cons.prems s0 by (intro Cons.IH) auto
  show ?case
  proof
    assume run: "splice_loop cm i p scr (b # bs) = Inr (p', scr')"
    then obtain p1 scr1 where sb: "splice_box cm i p scr b = Inr (p1, scr1)"
      and rest: "splice_loop cm (i + 1) p1 scr1 bs = Inr (p', scr')"
      by (auto split: sum.splits)
    from sb obtain e where be: "box_end scr s = Inr e"
      and p1: "p1 = int (length ?g) + s"
      and scr1: "scr1 = slice_to scr (s + 1) @ ?g @ slice_from scr e"
      using i by (auto simp: splice_box_def Let_def s_def split: sum.splits if_splits)
    from box_end_returns [OF s0(1) be] have e: "s < e" "e < int (length scr)"
      "\<not> is_text_cmd (strip (scr ! nat e))"
      "\<forall>k. s < k \<and> k < e \<longrightarrow> is_text_cmd (strip (scr ! nat k))"
      by auto
    have c1: "slice_to scr (s + 1) = take (nat s + 1) scr"
      using s0 e by (simp add: slice_to_def clip_def Let_def nat_add_distrib)
    have c2: "slice_from scr e = drop (nat e) scr"
      using s0 e by (simp add: slice_from_def clip_def Let_def)
    have scr1': "scr1 = take (nat s + 1) scr @ ?g @ drop (nat e) scr"
      using scr1 c1 c2 by simp
    have keep: "\<forall>k \<le> nat s. scr1 ! k = scr ! k"
      using s0 e scr1' by (auto simp: nth_append)
    have tcs: "\<forall>k. nat s < k \<and> k < nat e \<longrightarrow> is_text_cmd (strip (scr ! k))"
    proof (intro allI impI)
      fix k assume "nat s < k \<and> k < nat e"
      then have "s < int k \<and> int k < e" using s0 by linarith
      with e(4) have "is_text_cmd (strip (scr ! nat (int k)))" by blast
      then show "is_text_cmd (strip (scr ! k))" by simp
    qed
    have "splices cm (i + 1) (s + int (length ?g)) scr1 bs p' scr'"
      using rest p1 ih [of scr1] by (simp add: add.commute)
    then show "splices cm i p scr (b # bs) p' scr'"
      using s0 e tcs i scr1' keep
      by (intro splices_box [where s = s and e = "nat e" and g = ?g and ?scr1.0 = scr1])
         (auto simp: s_def)
  next
    assume "splices cm i p scr (b # bs) p' scr'"
    then obtain e g scr1 where
      e: "nat s < e" "e < length scr" "\<not> is_text_cmd (strip (scr ! e))"
         "\<forall>k. nat s < k \<and> k < e \<longrightarrow> is_text_cmd (strip (scr ! k))"
      and g: "g = cm ! i"
      and scr1: "scr1 = take (nat s + 1) scr @ g @ drop e scr"
      and rest: "splices cm (i + 1) (s + int (length g)) scr1 bs p' scr'"
      by (auto elim!: splices_ConsE simp: s_def)
    have be: "box_end scr s = Inr (int e)"
    proof (rule box_end_first)
      show "0 \<le> s" by (rule s0)
      show "s < int e" using e(1) s0 by linarith
      show "int e < int (length scr)" using e(2) by simp
      show "\<not> is_text_cmd (strip (scr ! nat (int e)))" using e(3) by simp
      show "\<forall>k. s < k \<and> k < int e \<longrightarrow> is_text_cmd (strip (scr ! nat k))"
      proof (intro allI impI)
        fix k :: int assume "s < k \<and> k < int e"
        then have "nat s < nat k \<and> nat k < e" using s0 by linarith
        with e(4) show "is_text_cmd (strip (scr ! nat k))" by blast
      qed
    qed
    have c1: "slice_to scr (s + 1) = take (nat s + 1) scr"
      using s0 e by (simp add: slice_to_def clip_def Let_def nat_add_distrib)
    have c2: "slice_from scr (int e) = drop e scr"
      using e by (simp add: slice_from_def clip_def Let_def)
    have sb: "splice_box cm i p scr b = Inr (s + int (length g), scr1)"
      using be i g scr1 c1 c2 by (simp add: splice_box_def Let_def s_def)
    from rest ih [of scr1] g have "splice_loop cm (i + 1) (s + int (length g)) scr1 bs = Inr (p', scr')"
      by simp
    with sb show "splice_loop cm i p scr (b # bs) = Inr (p', scr')" by simp
  qed
qed

lemma splice_loop_error:
  "i + length bs \<le> length cm \<Longrightarrow> splice_loop cm i p scr bs = Inl x \<Longrightarrow> x = IndexError"
proof (induction bs arbitrary: i p scr)
  case Nil
  then show ?case by simp
next
  case (Cons b bs)
  show ?case
  proof (cases "splice_box cm i p scr b")
    case (Inl y)
    with Cons.prems(2) have xy: "x = y" by simp
    from Inl Cons.prems(1) have "y = IndexError"
      using box_end_error [of scr "p + b_offset b"]
      by (auto simp: splice_box_def Let_def split: sum.splits if_splits)
    with xy show ?thesis by simp
  next
    case (Inr r)
    obtain p1 scr1 where r: "r = (p1, scr1)" by (cases r)
    with Inr Cons.prems(2) have "splice_loop cm (i + 1) p1 scr1 bs = Inl x" by simp
    moreover have "(i + 1) + length bs \<le> length cm" using Cons.prems(1) by simp
    ultimately show ?thesis by (rule Cons.IH [rotated])
  qed
qed

text \<open>
  C1, as amended. Take a run of \<open>craft_into_script\<close> in which the containers were built
  and the first loop, which picks the code variant of every box, returned its
  \<open>code_map\<close>; let the cursor be \<open>>= 0\<close> and every box offset \<open>>= 0\<close>. Then
  \<open>code_map\<close> has one block per box: the SG block of the box's container in an SG
  scene; otherwise the concat block when the line at the concat position of this box or
  of a box before it starts with \<open>concat\<close>; otherwise the standard block for the
  box's speaker. The function returns a cursor and a script exactly when \<open>splices\<close>
  relates them to the input: box after box, the start \<open>s = p + d\<close> is not before the
  cursor \<open>p\<close>, the lines after \<open>s\<close> up to the first line that is not a text command
  are replaced by the block \<open>g\<close> of the box, the lines up to and with \<open>s\<close> stay, and
  the next cursor is \<open>s + len(g)\<close>. Where some box has no line after its start that is
  not a text command, the function raises \<open>IndexError\<close>.
\<close>

theorem craft_into_script_splices:
  assumes cs: "create_english_box (join [newline] (map b_text jp_box_dicts)) en_boxes
                 text_lines line_length = Inr cs"
    and cm: "choose_code lb scene_id scr [] starting_offset False (zip jp_box_dicts cs) =
               Inr code_map"
    and p0: "0 \<le> starting_offset"
    and off: "\<forall>b \<in> set jp_box_dicts. 0 \<le> b_offset b"
  shows "length code_map = length jp_box_dicts \<and>
         (\<forall>k < length jp_box_dicts.
            code_map ! k =
              (if contains scene_id (str ''SG'') then create_text_box_code_SG (cs ! k)
               else if (\<exists>j \<le> k. \<exists>ln.
                         py_index scr (starting_offset +
                           sum_list (map (\<lambda>b. b_offset b + 2) (take (Suc j) jp_box_dicts)))
                           = Inr ln \<and> startswith ln (str ''concat''))
               then create_text_box_code_concat (cs ! k)
               else create_text_box_code lb (cs ! k) (b_speaker (jp_box_dicts ! k)))) \<and>
         (\<forall>p' scr'.
            craft_into_script lb en_boxes jp_box_dicts scr text_lines line_length
              starting_offset scene_id = Inr (p', scr') \<longleftrightarrow>
            splices code_map 0 starting_offset scr jp_box_dicts p' scr') \<and>
         ((\<exists>r. craft_into_script lb en_boxes jp_box_dicts scr text_lines line_length
              starting_offset scene_id = Inr r) \<or>
          craft_into_script lb en_boxes jp_box_dicts scr text_lines line_length
              starting_offset scene_id = Inl IndexError)"
proof -
  let ?craft = "craft_into_script lb en_boxes jp_box_dicts scr text_lines line_length
              starting_offset scene_id"
  have le: "length jp_box_dicts \<le> length cs" by (rule create_english_box_length [OF cs])
  then have lz: "length (zip jp_box_dicts cs) = length jp_box_dicts" by simp
  from choose_code_spec [OF cm] lz have len: "length code_map = length jp_box_dicts"
    by simp
  have sums: "map (\<lambda>z. b_offset (fst z) + 2) (take n (zip jp_box_dicts cs)) =
              map (\<lambda>b. b_offset b + 2) (take n jp_box_dicts)" for n
  proof -
    have "length (take n jp_box_dicts) \<le> length (take n cs)" using le by simp
    then have "map fst (zip (take n jp_box_dicts) (take n cs)) = take n jp_box_dicts"
      by (simp add: map_fst_zip_take min_def)
    then have "map ((\<lambda>b. b_offset b + 2) \<circ> fst) (zip (take n jp_box_dicts) (take n cs)) =
               map (\<lambda>b. b_offset b + 2) (take n jp_box_dicts)"
      by (simp only: map_map [symmetric])
    then show ?thesis by (simp add: take_zip comp_def)
  qed
  have each': "\<forall>k < length jp_box_dicts.
            code_map ! k =
              (if contains scene_id (str ''SG'') then create_text_box_code_SG (cs ! k)
               else if (\<exists>j \<le> k. \<exists>ln.
                         py_index scr (starting_offset +
                           sum_list (map (\<lambda>b. b_offset b + 2) (take (Suc j) jp_box_dicts)))
                           = Inr ln \<and> startswith ln (str ''concat''))
               then create_text_box_code_concat (cs ! k)
               else create_text_box_code lb (cs ! k) (b_speaker (jp_box_dicts ! k)))"
  proof (intro allI impI)
    fix k assume k: "k < length jp_box_dicts"
    with le have z: "zip jp_box_dicts cs ! k = (jp_box_dicts ! k, cs ! k)" by simp
    from k lz have "k < length (zip jp_box_dicts cs)" by simp
    from choose_code_variant [OF cm this]
    show "code_map ! k =
              (if contains scene_id (str ''SG'') then create_text_box_code_SG (cs ! k)
               else if (\<exists>j \<le> k. \<exists>ln.
                         py_index scr (starting_offset +
                           sum_list (map (\<lambda>b. b_offset b + 2) (take (Suc j) jp_box_dicts)))
                           = Inr ln \<and> startswith ln (str ''concat''))
               then create_text_box_code_concat (cs ! k)
               else create_text_box_code lb (cs ! k) (b_speaker (jp_box_dicts ! k)))"
      unfolding z fst_conv snd_conv sums by simp
  qed
  have craft: "?craft = splice_loop code_map 0 starting_offset scr jp_box_dicts"
    using cs cm by (simp add: craft_into_script_def Let_def)
  have fit: "0 + length jp_box_dicts \<le> length code_map" using len by simp
  have iff: "\<forall>p' scr'. ?craft = Inr (p', scr') \<longleftrightarrow>
               splices code_map 0 starting_offset scr jp_box_dicts p' scr'"
    unfolding craft using splice_loop_iff [OF p0 off fit] by blast
  have tot: "(\<exists>r. ?craft = Inr r) \<or> ?craft = Inl IndexError"
  proof (cases ?craft)
    case (Inl x)
    with craft have "splice_loop code_map 0 starting_offset scr jp_box_dicts = Inl x" by simp
    from splice_loop_error [OF fit this] Inl show ?thesis by simp
  next
    case (Inr r)
    then show ?thesis by blast
  qed
  from len each' iff tot show ?thesis by blast
qed

lemma not_SG: "\<not> contains (str ''SC0001'') (str ''SG'')"
  by (simp add: startswith_def str_def)

theorem craft_into_script_splices_witness:
  "craft_into_script \<lparr>current_char_label = [], current_narr_label = []\<rparr> (str ''A'')
     [\<lparr>b_text = str ''a'', b_speaker = str ''Narrator'', b_offset = 1\<rparr>]
     [str ''x'', str ''304'', str ''show-text 0 a'', str ''wait-for-input 0'', str ''y'']
     3 40 0 (str ''SC0001'') =
   Inr (6, [str ''x'', str ''304'', [], show_text (str ''A''), str ''wait-for-input 0'',
            str ''end-text-line 0'', [], str ''y''])"
proof -
  let ?lb = "\<lparr>current_char_label = [], current_narr_label = []\<rparr>"
  let ?bx = "\<lparr>b_text = str ''a'', b_speaker = str ''Narrator'', b_offset = 1\<rparr>"
  let ?scr = "[str ''x'', str ''304'', str ''show-text 0 a'', str ''wait-for-input 0'', str ''y'']"
  let ?g = "[[], show_text (str ''A''), str ''wait-for-input 0'', str ''end-text-line 0'', []]"
  have wrap: "correct_en_box (str ''A'') 3 40 = [str ''A'']"
    by (simp add: correct_en_box_def space_def measure_text_width_def is_wide_char_def
          flush_def str_def)
  have cs: "create_english_box (join [newline] (map b_text [?bx])) (str ''A'') 3 40 =
              Inr [[str ''A'']]"
    using wrap by (simp add: create_english_box_def reconcile_def newline_def str_def)
  have rq: "replace shitter safe_shitter (str ''A'') = str ''A''"
    by (simp add: shitter_def safe_shitter_def replace_def startswith_def str_def)
  have sn: "split_on newline (str ''A'') = [str ''A'']" by (simp add: newline_def str_def)
  have g: "create_text_box_code ?lb [str ''A''] (str ''Narrator'') = ?g"
    by (simp add: create_text_box_code_def sn rq Let_def)
  have nc: "\<not> startswith (str ''wait-for-input 0'') (str ''concat'')"
    by (simp add: startswith_def str_def)
  have cm: "choose_code ?lb (str ''SC0001'') ?scr [] 0 False (zip [?bx] [[str ''A'']]) = Inr [?g]"
    using not_SG nc g by (simp add: py_index_def Let_def)
  have t2: "is_text_cmd (strip (str ''show-text 0 a''))"
    by (simp add: is_text_cmd_def TEXT_CMDS_def startswith_def strip_def lstrip_def rstrip_def
          isspace_def str_def)
  have t3: "is_text_cmd (strip (str ''wait-for-input 0''))"
    by (simp add: is_text_cmd_def TEXT_CMDS_def startswith_def strip_def lstrip_def rstrip_def
          isspace_def str_def)
  have t4: "\<not> is_text_cmd (strip (str ''y''))"
    by (simp add: is_text_cmd_def TEXT_CMDS_def startswith_def strip_def lstrip_def rstrip_def
          isspace_def str_def)
  have mid: "\<forall>k. nat 1 < k \<and> k < 4 \<longrightarrow> is_text_cmd (strip (?scr ! k))"
  proof (intro allI impI)
    fix k :: nat assume "nat 1 < k \<and> k < 4"
    then have "k = 2 \<or> k = 3" by auto
    with t2 t3 show "is_text_cmd (strip (?scr ! k))" by auto
  qed
  let ?scr1 = "take (nat 1 + 1) ?scr @ ?g @ drop 4 ?scr"
  have keep: "\<forall>k \<le> nat 1. ?scr1 ! k = ?scr ! k"
  proof (intro allI impI)
    fix k :: nat assume "k \<le> nat 1"
    then have "k = 0 \<or> k = 1" by auto
    then show "?scr1 ! k = ?scr ! k" by auto
  qed
  have "splices [?g] 0 0 ?scr [?bx] (1 + int (length ?g)) ?scr1"
  proof (rule splices_box [where s = 1 and e = 4 and g = ?g and ?scr1.0 = ?scr1])
    show "1 = 0 + b_offset ?bx" by simp
    show "(0::int) \<le> 1" by simp
    show "(0::int) \<le> 1" by simp
    show "nat 1 < 4" by simp
    show "4 < length ?scr" by simp
    show "\<not> is_text_cmd (strip (?scr ! 4))" using t4 by simp
    show "\<forall>k. nat 1 < k \<and> k < 4 \<longrightarrow> is_text_cmd (strip (?scr ! k))" by (rule mid)
    show "0 < length [?g]" by simp
    show "?g = [?g] ! 0" by simp
    show "?scr1 = take (nat 1 + 1) ?scr @ ?g @ drop 4 ?scr" by simp
    show "\<forall>k \<le> nat 1. ?scr1 ! k = ?scr ! k" by (rule keep)
    show "splices [?g] (0 + 1) (1 + int (length ?g)) ?scr1 [] (1 + int (length ?g)) ?scr1"
      by (rule splices_end)
  qed
  with craft_into_script_splices [OF cs cm]
  have "craft_into_script ?lb (str ''A'') [?bx] ?scr 3 40 0 (str ''SC0001'') =
          Inr (1 + int (length ?g), ?scr1)"
    by simp
  then show ?thesis by (simp add: numeral_2_eq_2)
qed

text \<open>
  C1 as stated fails. On a script of five lines with two boxes, at offsets 0 and 1, the
  first loop reads \<open>final_en_script[5]\<close> for the second box and
  \<open>craft_into_script\<close> raises \<open>IndexError\<close> before any box is spliced, although a
  line that is not a text command follows each box. And nothing tests the sign of an
  offset: called at cursor 3 with one box of offset -3, \<open>craft_into_script\<close> starts
  at line 0, before the cursor, replaces line 1 and returns the cursor 5.
\<close>

theorem craft_into_script_counterexample:
  "craft_into_script \<lparr>current_char_label = [], current_narr_label = []\<rparr>
     (str ''A'' @ [10] @ str ''B'')
     [\<lparr>b_text = str ''a'', b_speaker = str ''Narrator'', b_offset = 0\<rparr>,
      \<lparr>b_text = str ''b'', b_speaker = str ''Narrator'', b_offset = 1\<rparr>]
     [str ''304'', str ''show-text 0 a'', str ''304'', str ''show-text 0 b'', str ''y'']
     3 40 0 (str ''SC0001'') = Inl IndexError \<and>
   \<not> is_text_cmd (strip (str ''304'')) \<and> \<not> is_text_cmd (strip (str ''y'')) \<and>
   craft_into_script \<lparr>current_char_label = [], current_narr_label = []\<rparr> (str ''A'')
     [\<lparr>b_text = str ''a'', b_speaker = str ''Narrator'', b_offset = - 3\<rparr>]
     [str ''304'', str ''show-text 0 a'', str ''304'', str ''show-text 0 b'', str ''y'']
     3 40 3 (str ''SC0001'') =
     Inr (5, [str ''304'', [], show_text (str ''A''), str ''wait-for-input 0'',
              str ''end-text-line 0'', [], str ''304'', str ''show-text 0 b'', str ''y''])"
proof -
  let ?lb = "\<lparr>current_char_label = [], current_narr_label = []\<rparr>"
  let ?b1 = "\<lparr>b_text = str ''a'', b_speaker = str ''Narrator'', b_offset = 0\<rparr>"
  let ?b2 = "\<lparr>b_text = str ''b'', b_speaker = str ''Narrator'', b_offset = 1\<rparr>"
  let ?scr = "[str ''304'', str ''show-text 0 a'', str ''304'', str ''show-text 0 b'', str ''y'']"
  have wa: "correct_en_box (str ''A'') 3 40 = [str ''A'']"
    by (simp add: correct_en_box_def space_def measure_text_width_def is_wide_char_def
          flush_def str_def)
  have wb: "correct_en_box (str ''B'') 3 40 = [str ''B'']"
    by (simp add: correct_en_box_def space_def measure_text_width_def is_wide_char_def
          flush_def str_def)
  have sj: "split_on newline (join [newline] (map b_text [?b1, ?b2])) = [str ''a'', str ''b'']"
    by (simp add: newline_def str_def)
  have se: "split_on newline (str ''A'' @ [10] @ str ''B'') = [str ''A'', str ''B'']"
    by (simp add: newline_def str_def)
  have cs: "create_english_box (join [newline] (map b_text [?b1, ?b2]))
              (str ''A'' @ [10] @ str ''B'') 3 40 = Inr [[str ''A''], [str ''B'']]"
    unfolding create_english_box_def Let_def sj se using wa wb by (simp add: reconcile_def)
  have nc: "\<not> startswith (str ''304'') (str ''concat'')"
    by (simp add: startswith_def str_def)
  have cm: "choose_code ?lb (str ''SC0001'') ?scr [] 0 False
              (zip [?b1, ?b2] [[str ''A''], [str ''B'']]) = Inl IndexError"
    using not_SG nc by (simp add: py_index_def Let_def)
  have c: "craft_into_script ?lb (str ''A'' @ [10] @ str ''B'') [?b1, ?b2] ?scr 3 40 0
             (str ''SC0001'') = Inl IndexError"
    unfolding craft_into_script_def Let_def cs using cm by simp
  have m: "\<not> is_text_cmd (strip (str ''304''))" and y: "\<not> is_text_cmd (strip (str ''y''))"
    by (simp_all add: is_text_cmd_def TEXT_CMDS_def startswith_def strip_def lstrip_def
          rstrip_def isspace_def str_def)
  have t1: "is_text_cmd (strip (str ''show-text 0 a''))"
    by (simp add: is_text_cmd_def TEXT_CMDS_def startswith_def strip_def lstrip_def rstrip_def
          isspace_def str_def)
  have be: "box_end ?scr 0 = Inr 2"
  proof (rule box_end_first)
    show "(0::int) \<le> 0" by simp
    show "(0::int) < 2" by simp
    show "2 < int (length ?scr)" by simp
    show "\<not> is_text_cmd (strip (?scr ! nat 2))" using m by (simp add: numeral_2_eq_2)
    show "\<forall>k. (0::int) < k \<and> k < 2 \<longrightarrow> is_text_cmd (strip (?scr ! nat k))"
    proof (intro allI impI)
      fix k :: int assume "0 < k \<and> k < 2"
      then have "k = 1" by auto
      with t1 show "is_text_cmd (strip (?scr ! nat k))" by simp
    qed
  qed
  let ?b3 = "\<lparr>b_text = str ''a'', b_speaker = str ''Narrator'', b_offset = - 3\<rparr>"
  let ?g = "[[], show_text (str ''A''), str ''wait-for-input 0'', str ''end-text-line 0'', []]"
  have cs3: "create_english_box (join [newline] (map b_text [?b3])) (str ''A'') 3 40 =
              Inr [[str ''A'']]"
    using wa by (simp add: create_english_box_def reconcile_def newline_def str_def)
  have rq: "replace shitter safe_shitter (str ''A'') = str ''A''"
    by (simp add: shitter_def safe_shitter_def replace_def startswith_def str_def)
  have sn: "split_on newline (str ''A'') = [str ''A'']" by (simp add: newline_def str_def)
  have g: "create_text_box_code ?lb [str ''A''] (str ''Narrator'') = ?g"
    by (simp add: create_text_box_code_def sn rq Let_def)
  have cm3: "choose_code ?lb (str ''SC0001'') ?scr [] 3 False (zip [?b3] [[str ''A'']]) =
               Inr [?g]"
    using not_SG nc g by (simp add: py_index_def Let_def numeral_2_eq_2)
  have sb: "splice_box [?g] 0 3 ?scr ?b3 =
      Inr (5, [str ''304'', [], show_text (str ''A''), str ''wait-for-input 0'',
               str ''end-text-line 0'', [], str ''304'', str ''show-text 0 b'', str ''y''])"
    using be by (simp add: splice_box_def Let_def slice_to_def slice_from_def clip_def
          py_index_def numeral_2_eq_2)
  have c3: "craft_into_script ?lb (str ''A'') [?b3] ?scr 3 40 3 (str ''SC0001'') =
      Inr (5, [str ''304'', [], show_text (str ''A''), str ''wait-for-input 0'',
               str ''end-text-line 0'', [], str ''304'', str ''show-text 0 b'', str ''y''])"
    unfolding craft_into_script_def Let_def cs3 using cm3 sb by simp
  from c m y c3 show ?thesis by blast
qed

section \<open>Properties of the Box Detector: the read after a marker\<close>

lemma marker_not_text: "is_box_start st fn \<Longrightarrow> \<not> is_text_cmd st"
proof -
  have a: "\<not> is_text_cmd (str ''u00416120'')"
    by (simp add: is_text_cmd_def TEXT_CMDS_def startswith_def str_def)
  have b: "\<not> is_text_cmd (str ''304'')"
    by (simp add: is_text_cmd_def TEXT_CMDS_def startswith_def str_def)
  have c: "\<not> is_text_cmd (str ''call label_00004c70'')"
    by (simp add: is_text_cmd_def TEXT_CMDS_def startswith_def str_def)
  assume "is_box_start st fn"
  then show ?thesis using a b c by (auto simp: is_box_start_def)
qed

lemma strip_keeps_head:
  assumes "\<not> isspace c"
  shows "\<exists>r. strip (c # l) = c # r"
proof -
  have "lstrip (c # l) = c # l" using assms by (simp add: lstrip_def)
  moreover have "\<exists>q. dropWhile isspace (rev l @ [c]) = q @ [c]"
    using assms by (simp add: dropWhile_append)
  then obtain q where "dropWhile isspace (rev l @ [c]) = q @ [c]" by blast
  then have "rstrip (c # l) = c # rev q" by (simp add: rstrip_def)
  ultimately show ?thesis by (simp add: strip_def)
qed

lemma show_text_not_marker:
  assumes "startswith l (str ''show-text'')"
  shows "\<not> is_box_start (strip l) fn"
proof -
  from assms obtain l' where l: "l = 115 # l'"
    by (cases l) (auto simp: startswith_def str_def)
  have "\<not> isspace 115" by (simp add: isspace_def)
  from strip_keeps_head [OF this, of l'] l obtain r where "strip l = 115 # r" by auto
  then show ?thesis by (simp add: is_box_start_def str_def)
qed

lemma confirm_start_error:
  assumes "0 \<le> i"
  shows "confirm_start L i ln s = Inl e \<longleftrightarrow> e = IndexError \<and> int (length L) \<le> i + 1"
  using assms by (auto simp: confirm_start_def py_index_def)

lemma box_machine_error:
  assumes "0 \<le> i"
  shows "box_machine nm fn L i ln s = Inl e \<longleftrightarrow>
         e = IndexError \<and> is_box_start (strip ln) fn \<and> int (length L) \<le> i + 1"
  using assms marker_not_text [of "strip ln" fn]
  by (auto simp: box_machine_def Let_def confirm_start_error)

lemma scan_step_error:
  assumes "0 \<le> i"
  shows "scan_step nm fn L i ln s = Inl e \<longleftrightarrow>
         e = IndexError \<and> is_box_start (strip ln) fn \<and> int (length L) \<le> i + 1"
  using assms by (simp add: scan_step_def box_machine_error)

lemma scan_loop_result:
  "L = pre @ rest \<Longrightarrow>
   (rest \<noteq> [] \<and> is_box_start (strip (last rest)) fn \<and>
      scan_loop nm fn L (int (length pre)) rest s = Inl IndexError) \<or>
   ((rest = [] \<or> \<not> is_box_start (strip (last rest)) fn) \<and>
      (\<exists>s'. scan_loop nm fn L (int (length pre)) rest s = Inr s'))"
proof (induction rest arbitrary: pre s)
  case Nil
  then show ?case by simp
next
  case (Cons ln rest)
  have pos: "0 \<le> int (length pre)" by simp
  show ?case
  proof (cases "rest = []")
    case True
    show ?thesis
    proof (cases "is_box_start (strip ln) fn")
      case m: True
      have "scan_step nm fn L (int (length pre)) ln s = Inl IndexError"
        using scan_step_error [OF pos, of nm fn L ln s IndexError] m True Cons.prems by simp
      with m True show ?thesis by simp
    next
      case m: False
      obtain s1 where "scan_step nm fn L (int (length pre)) ln s = Inr s1"
        using scan_step_error [OF pos, of nm fn L ln s] m
        by (cases "scan_step nm fn L (int (length pre)) ln s") auto
      with m True show ?thesis by simp
    qed
  next
    case False
    have "\<not> int (length L) \<le> int (length pre) + 1"
      using False Cons.prems by (cases rest) auto
    then obtain s1 where s1: "scan_step nm fn L (int (length pre)) ln s = Inr s1"
      using scan_step_error [OF pos, of nm fn L ln s]
      by (cases "scan_step nm fn L (int (length pre)) ln s") auto
    have L: "L = (pre @ [ln]) @ rest" using Cons.prems by simp
    from Cons.IH [OF L, of s1] False s1 show ?thesis
      by (simp add: add.commute)
  qed
qed

text \<open>
  C10. Whenever the stripped line at index \<open>idx\<close> is a box-start marker, the loop body
  goes through \<open>confirm_start\<close>, in the state as it is when the scanner is not in a box
  and in the state after \<open>close\<close> when it was; \<open>confirm_start\<close> reads
  \<open>lines[idx+1]\<close> first, and that read raises \<open>IndexError\<close> exactly when no line
  follows. So \<open>extract_boxes\<close> raises \<open>IndexError\<close> on every script whose last line is
  a marker, and returns a box list on every script in which each marker is followed by at
  least one more line.
\<close>

theorem extract_boxes_index_error:
  "(lines \<noteq> [] \<and> is_box_start (strip (last lines)) file_name \<longrightarrow>
      extract_boxes name_map file_name lines = Inl IndexError) \<and>
   ((\<forall>i < length lines. is_box_start (strip (lines ! i)) file_name \<longrightarrow> i + 1 < length lines) \<longrightarrow>
      (\<exists>bs. extract_boxes name_map file_name lines = Inr bs)) \<and>
   (is_box_start (strip ln) file_name \<longrightarrow>
      box_machine name_map file_name lines i ln s =
        confirm_start lines i ln (if in_box s then close name_map (i - 1) s else s)) \<and>
   (0 \<le> i \<longrightarrow>
      (confirm_start lines i ln s = Inl IndexError \<longleftrightarrow> int (length lines) \<le> i + 1))"
proof -
  have r: "(lines \<noteq> [] \<and> is_box_start (strip (last lines)) file_name \<and>
      scan_loop name_map file_name lines (int (length ([] :: ustr list))) lines init_state = Inl IndexError) \<or>
   ((lines = [] \<or> \<not> is_box_start (strip (last lines)) file_name) \<and>
      (\<exists>s'. scan_loop name_map file_name lines (int (length ([] :: ustr list))) lines init_state = Inr s'))"
    by (rule scan_loop_result) simp
  have a: "lines \<noteq> [] \<and> is_box_start (strip (last lines)) file_name \<longrightarrow>
      extract_boxes name_map file_name lines = Inl IndexError"
    using r by (auto simp: extract_boxes_def scan_def)
  have b: "(\<forall>i < length lines. is_box_start (strip (lines ! i)) file_name \<longrightarrow> i + 1 < length lines) \<longrightarrow>
      (\<exists>bs. extract_boxes name_map file_name lines = Inr bs)"
  proof
    assume h: "\<forall>i < length lines. is_box_start (strip (lines ! i)) file_name \<longrightarrow> i + 1 < length lines"
    have "lines = [] \<or> \<not> is_box_start (strip (last lines)) file_name"
    proof (cases "lines = []")
      case True
      then show ?thesis by simp
    next
      case False
      then have "last lines = lines ! (length lines - 1)" by (simp add: last_conv_nth)
      moreover have "length lines - 1 < length lines" using False by simp
      ultimately show ?thesis using h [rule_format, of "length lines - 1"] by auto
    qed
    with r show "\<exists>bs. extract_boxes name_map file_name lines = Inr bs"
      by (auto simp: extract_boxes_def scan_def)
  qed
  have c: "is_box_start (strip ln) file_name \<longrightarrow>
      box_machine name_map file_name lines i ln s =
        confirm_start lines i ln (if in_box s then close name_map (i - 1) s else s)"
    using marker_not_text [of "strip ln" file_name]
    by (auto simp: box_machine_def Let_def)
  have d: "0 \<le> i \<longrightarrow>
      (confirm_start lines i ln s = Inl IndexError \<longleftrightarrow> int (length lines) \<le> i + 1)"
    by (simp add: confirm_start_error)
  from a b c d show ?thesis by blast
qed

theorem extract_boxes_index_error_witness:
  "extract_boxes Map.empty (str ''SC0001'') [str ''x'', str ''u00416120''] = Inl IndexError \<and>
   (\<exists>bs. extract_boxes Map.empty (str ''SC0001'') [str ''u00416120'', str ''x''] = Inr bs)"
proof -
  have m: "is_box_start (strip (str ''u00416120'')) (str ''SC0001'')"
    by (simp add: is_box_start_def strip_def lstrip_def rstrip_def isspace_def str_def)
  have n: "\<not> is_box_start (strip (str ''x'')) (str ''SC0001'')"
    by (simp add: is_box_start_def strip_def lstrip_def rstrip_def isspace_def str_def)
  have h: "\<forall>i < length [str ''u00416120'', str ''x''].
     is_box_start (strip ([str ''u00416120'', str ''x''] ! i)) (str ''SC0001'') \<longrightarrow>
     i + 1 < length [str ''u00416120'', str ''x'']"
    using n by (auto simp: less_Suc_eq)
  from extract_boxes_index_error [of "[str ''x'', str ''u00416120'']" "str ''SC0001''" Map.empty] m
  have "extract_boxes Map.empty (str ''SC0001'') [str ''x'', str ''u00416120''] = Inl IndexError"
    by simp
  moreover from extract_boxes_index_error [of "[str ''u00416120'', str ''x'']" "str ''SC0001''" Map.empty] h
  have "\<exists>bs. extract_boxes Map.empty (str ''SC0001'') [str ''u00416120'', str ''x''] = Inr bs"
    by blast
  ultimately show ?thesis by blast
qed

section \<open>Properties of the Box Detector: positions and offsets\<close>

lemma slice_nat:
  "0 \<le> a \<Longrightarrow> a \<le> b \<Longrightarrow> b \<le> int (length L) \<Longrightarrow>
   slice L a b = take (nat b - nat a) (drop (nat a) L)"
  by (simp add: slice_def clip_def Let_def)

lemma slice_snoc:
  assumes "0 \<le> a" "a \<le> int i" "i < length L"
  shows "slice L a (int i) @ [L ! i] = slice L a (int i + 1)"
proof -
  have 1: "slice L a (int i) = take (i - nat a) (drop (nat a) L)"
    using assms by (simp add: slice_nat)
  have 2: "slice L a (int i + 1) = take (Suc (i - nat a)) (drop (nat a) L)"
    using assms by (simp add: slice_nat nat_add_distrib Suc_diff_le nat_le_iff)
  have "i - nat a < length (drop (nat a) L)" using assms by auto
  then have "take (Suc (i - nat a)) (drop (nat a) L) =
             take (i - nat a) (drop (nat a) L) @ [drop (nat a) L ! (i - nat a)]"
    by (rule take_Suc_conv_app_nth)
  moreover have "drop (nat a) L ! (i - nat a) = L ! i" using assms by (simp add: nat_le_iff)
  ultimately show ?thesis using 1 2 by simp
qed

lemma slice_snoc':
  "0 \<le> a \<Longrightarrow> a \<le> int i \<Longrightarrow> i < length L \<Longrightarrow>
   slice L a (int i) @ [L ! i] = slice L a (1 + int i)"
  using slice_snoc [of a i L] by (simp add: add.commute)

lemma slice_single: "i < length L \<Longrightarrow> slice L (int i) (1 + int i) = [L ! i]"
  using slice_snoc' [of "int i" i L] by (simp add: slice_def clip_def Let_def)

lemma emitted_ok_snoc:
  assumes "emitted_ok L fn bs sps" and "span_ok L fn (prev_end sps (length sps)) b sp"
  shows "emitted_ok L fn (bs @ [b]) (sps @ [sp])"
proof -
  from assms(1) have len: "length sps = length bs"
    and old: "\<forall>k < length bs. span_ok L fn (prev_end sps k) (bs ! k) (sps ! k)"
    by (simp_all add: emitted_ok_def)
  have "span_ok L fn (prev_end (sps @ [sp]) k) ((bs @ [b]) ! k) ((sps @ [sp]) ! k)"
    if "k < length (bs @ [b])" for k
  proof (cases "k < length bs")
    case True
    then have "k - 1 < length sps" using len by simp
    then have "prev_end (sps @ [sp]) k = prev_end sps k"
      by (simp add: prev_end_def nth_append)
    with True old len show ?thesis by (simp add: nth_append)
  next
    case False
    with that have k: "k = length bs" by simp
    have "prev_end (sps @ [sp]) k = prev_end sps (length sps)"
      using k len by (simp add: prev_end_def nth_append)
    with k len assms(2) show ?thesis by (simp add: nth_append)
  qed
  with len show ?thesis by (simp add: emitted_ok_def)
qed

lemma prev_end_snoc: "prev_end (sps @ [sp]) (Suc (length sps)) = snd sp"
  by (simp add: prev_end_def)

lemma scan_inv_track: "scan_inv L fn i (track_speaker st s) = scan_inv L fn i s"
  by (simp add: track_speaker_def scan_inv_def split: option.splits)

lemma close_idle:
  assumes "scan_inv L fn i s" and "\<not> in_box s"
  shows "scan_inv L fn i (close nm e s) \<and> \<not> after_u (close nm e s) \<and> \<not> in_box (close nm e s)"
  using assms by (auto simp: close_def scan_inv_def)

lemma close_open:
  assumes inv: "scan_inv L fn i s" and ib: "in_box s"
  shows "scan_inv L fn i (close nm (int i - 1) s) \<and> \<not> after_u (close nm (int i - 1) s) \<and>
         \<not> in_box (close nm (int i - 1) s)"
proof -
  from inv ib have au: "after_u s" by (simp add: scan_inv_def)
  from inv au ib have p: "0 \<le> start_idx s" "last_end s \<le> start_idx s"
      "start_idx s < int i" "buf s = slice L (start_idx s) (int i)"
      "is_box_start (strip (L ! nat (start_idx s))) fn"
      "startswith (L ! nat (start_idx s + 1)) (str ''show-text'')"
      "start_idx s + 1 < int i"
      "is_text_cmd (strip (L ! nat (start_idx s + 1)))"
    and g: "emitted_ok L fn (boxes s) (spans s)" "last_end s = prev_end (spans s) (length (spans s))"
      "0 \<le> last_end s" "i \<le> length L"
    by (simp_all add: scan_inv_def)
  have "nat (start_idx s) < i" using p(1,3) by linarith
  then have bne: "buf s \<noteq> []"
    using p(1,3,4) g(4) by (simp add: slice_nat)
  let ?b = "\<lparr>tb_idx = int (length (boxes s)) + 1,
             tb_speaker = speaker_name_of nm (pending_speaker s),
             tb_offset = start_idx s - last_end s,
             tb_jp_text = join_text (drop 1 (buf s)), tb_raw = buf s\<rparr>"
  let ?sp = "(start_idx s, int i - 1)"
  have so: "span_ok L fn (prev_end (spans s) (length (spans s))) ?b ?sp"
    using p g by (simp add: span_ok_def)
  have em: "emitted_ok L fn (boxes s @ [?b]) (spans s @ [?sp])"
    by (rule emitted_ok_snoc [OF g(1) so])
  have cl: "close nm (int i - 1) s =
      s\<lparr>boxes := boxes s @ [?b], spans := spans s @ [?sp], last_end := int i - 1,
        in_box := False, after_u := False, buf := [], start_idx := - 1,
        pending_speaker := None\<rparr>"
    using ib bne g(3) by (simp add: close_def Let_def)
  have pe: "prev_end (spans s @ [?sp]) (length (spans s @ [?sp])) = int i - 1"
    using prev_end_snoc [of "spans s" ?sp] by simp
  have "0 \<le> int i - 1" using p(1,7) by linarith
  with em pe g(4) show ?thesis unfolding cl by (simp add: scan_inv_def)
qed

lemma scan_inv_mono:
  "scan_inv L fn i s \<Longrightarrow> \<not> after_u s \<Longrightarrow> i < length L \<Longrightarrow> scan_inv L fn (Suc i) s"
  by (auto simp: scan_inv_def)

lemma last_end_le:
  assumes "scan_inv L fn i s"
  shows "last_end s \<le> int i"
proof (cases "spans s = []")
  case True
  with assms show ?thesis by (simp add: scan_inv_def prev_end_def)
next
  case False
  with assms show ?thesis by (simp add: scan_inv_def)
qed

lemma confirm_inv:
  assumes inv: "scan_inv L fn i s" and na: "\<not> after_u s" and i: "i < length L"
    and m: "is_box_start (strip (L ! i)) fn"
    and c: "confirm_start L (int i) (L ! i) s = Inr s'"
  shows "scan_inv L fn (Suc i) s'"
proof (cases "int i + 1 < int (length L) \<and> startswith (L ! nat (int i + 1)) (str ''show-text'')")
  case False
  with c have "s' = s" by (auto simp: confirm_start_def py_index_def split: if_splits)
  with inv na i show ?thesis by (simp add: scan_inv_mono)
next
  case True
  with c have s': "s' = s\<lparr>after_u := True, buf := [L ! i], start_idx := int i\<rparr>"
    by (auto simp: confirm_start_def py_index_def split: if_splits)
  from inv na have nb: "\<not> in_box s" by (auto simp: scan_inv_def)
  have le: "last_end s \<le> int i" by (rule last_end_le [OF inv])
  show ?thesis unfolding s' using inv nb le i m True
    by (auto simp: scan_inv_def slice_single)
qed

lemma step_inv:
  assumes inv: "scan_inv L fn i s" and i: "i < length L"
    and st: "scan_step nm fn L (int i) (L ! i) s = Inr s'"
  shows "scan_inv L fn (Suc i) s'"
proof -
  define t where "t = track_speaker (strip (L ! i)) s"
  have it: "scan_inv L fn i t" using inv by (simp add: t_def scan_inv_track)
  have bm: "box_machine nm fn L (int i) (L ! i) t = Inr s'"
    using st by (simp add: scan_step_def t_def)
  show ?thesis
  proof (cases "in_box t")
    case nb: False
    show ?thesis
    proof (cases "is_box_start (strip (L ! i)) fn")
      case True
      have na: "\<not> after_u t"
      proof
        assume au: "after_u t"
        with it nb have "int i = start_idx t + 1"
          "startswith (L ! nat (start_idx t + 1)) (str ''show-text'')"
          by (simp_all add: scan_inv_def)
        then have "startswith (L ! i) (str ''show-text'')" by (metis nat_int)
        from show_text_not_marker [OF this] True show False by simp
      qed
      from bm nb True have "confirm_start L (int i) (L ! i) t = Inr s'"
        by (simp add: box_machine_def Let_def)
      from confirm_inv [OF it na i True this] show ?thesis .
    next
      case nm: False
      show ?thesis
      proof (cases "after_u t")
        case na: False
        with bm nb nm have "s' = t" by (simp add: box_machine_def Let_def)
        with it na i show ?thesis by (simp add: scan_inv_mono)
      next
        case au: True
        from it au nb have p: "0 \<le> start_idx t" "int i = start_idx t + 1"
          "buf t = slice L (start_idx t) (int i)"
          by (simp_all add: scan_inv_def)
        show ?thesis
        proof (cases "is_text_cmd (strip (L ! i))")
          case True
          with bm nb nm au have s': "s' = t\<lparr>in_box := True, buf := buf t @ [L ! i]\<rparr>"
            by (simp add: box_machine_def Let_def)
          have "buf t @ [L ! i] = slice L (start_idx t) (1 + int i)"
            using p i slice_snoc' [of "start_idx t" i L] by simp
          moreover have "nat (start_idx t + 1) = i" using p(2) by linarith
          then have "is_text_cmd (strip (L ! nat (start_idx t + 1)))" using True by simp
          ultimately show ?thesis unfolding s' using it au nb i p
            by (auto simp: scan_inv_def)
        next
          case False
          with bm nb nm au have s': "s' = t\<lparr>after_u := False, buf := []\<rparr>"
            by (simp add: box_machine_def Let_def)
          show ?thesis unfolding s' using it nb i
            by (auto simp: scan_inv_def)
        qed
      qed
    qed
  next
    case ib: True
    with it have au: "after_u t" by (auto simp: scan_inv_def)
    show ?thesis
    proof (cases "is_text_cmd (strip (L ! i))")
      case True
      with bm ib have s': "s' = t\<lparr>buf := buf t @ [L ! i]\<rparr>"
        by (simp add: box_machine_def Let_def)
      from it au ib have p: "0 \<le> start_idx t" "start_idx t < int i"
          "buf t = slice L (start_idx t) (int i)"
        by (simp_all add: scan_inv_def)
      have "buf t @ [L ! i] = slice L (start_idx t) (1 + int i)"
        using p i slice_snoc' [of "start_idx t" i L] by simp
      then show ?thesis unfolding s' using it au ib i
        by (auto simp: scan_inv_def)
    next
      case False
      define c where "c = close nm (int i - 1) t"
      from close_open [OF it ib, of nm] have ic: "scan_inv L fn i c" "\<not> after_u c" "\<not> in_box c"
        by (simp_all add: c_def)
      show ?thesis
      proof (cases "is_box_start (strip (L ! i)) fn")
        case True
        with bm ib False have "confirm_start L (int i) (L ! i) c = Inr s'"
          by (simp add: box_machine_def Let_def c_def)
        from confirm_inv [OF ic(1) ic(2) i True this] show ?thesis .
      next
        case nm: False
        with bm ib False have "s' = c" by (simp add: box_machine_def Let_def c_def)
        with ic i show ?thesis by (simp add: scan_inv_mono)
      qed
    qed
  qed
qed

lemma loop_inv:
  "L = pre @ rest \<Longrightarrow> scan_inv L fn (length pre) s \<Longrightarrow>
   scan_loop nm fn L (int (length pre)) rest s = Inr s' \<Longrightarrow> scan_inv L fn (length L) s'"
proof (induction rest arbitrary: pre s)
  case Nil
  then show ?case by simp
next
  case (Cons ln rest)
  from Cons.prems(3) obtain s1 where
    s1: "scan_step nm fn L (int (length pre)) ln s = Inr s1"
    and r: "scan_loop nm fn L (int (length pre) + 1) rest s1 = Inr s'"
    by (auto split: sum.splits)
  have i: "length pre < length L" and ln: "L ! length pre = ln"
    using Cons.prems(1) by simp_all
  from step_inv [OF Cons.prems(2) i] s1 ln have inv1: "scan_inv L fn (length (pre @ [ln])) s1"
    by simp
  have L: "L = (pre @ [ln]) @ rest" using Cons.prems(1) by simp
  from r have "scan_loop nm fn L (int (length (pre @ [ln]))) rest s1 = Inr s'"
    by (simp add: add.commute)
  from Cons.IH [OF L inv1 this] show ?case .
qed

lemma init_inv: "scan_inv L fn 0 init_state"
  by (simp add: scan_inv_def init_state_def emitted_ok_def prev_end_def)

lemma scan_emitted:
  assumes "scan nm fn L = Inr s"
  shows "emitted_ok L fn (boxes s) (spans s)"
proof -
  from assms obtain s1 where
    l: "scan_loop nm fn L 0 L init_state = Inr s1"
    and s: "s = close nm (int (length L) - 1) s1"
    by (auto simp: scan_def split: sum.splits)
  have "scan_inv L fn (length L) s1"
    using loop_inv [of L "[]" L fn init_state nm s1] l init_inv by simp
  then have "scan_inv L fn (length L) s"
    unfolding s using close_open [of L fn "length L" s1 nm] close_idle [of L fn "length L" s1 nm]
    by (cases "in_box s1") simp_all
  then show ?thesis by (simp add: scan_inv_def)
qed

text \<open>
  A script of four lines, scanned step by step: \<open>x\<close>, the marker \<open>304\<close>, one
  \<open>show-text\<close> line and \<open>y\<close>. One box comes out, for the lines 1 to 2.
\<close>

lemma track_speaker_idle:
  "\<not> lookup_6623_match st \<Longrightarrow> \<not> waiting_mov s \<Longrightarrow> track_speaker st s = s"
  by (simp add: track_speaker_def)

lemma scan_example: "scan Map.empty (str ''SC0001'') [str ''x'', str ''304'', str ''show-text 0 a'', str ''y''] =
  Inr \<lparr>boxes = [\<lparr>tb_idx = 1, tb_speaker = str ''Narrator'', tb_offset = 1, tb_jp_text = [],
                   tb_raw = [str ''304'', str ''show-text 0 a'']\<rparr>],
       pending_speaker = None, waiting_mov = False, in_box = False, after_u = False, buf = [],
       start_idx = - 1, last_end = 2, spans = [(1, 2)]\<rparr>"
proof -
  let ?L = "[str ''x'', str ''304'', str ''show-text 0 a'', str ''y'']"
  let ?fn = "str ''SC0001''"
  have sx: "strip (str ''x'') = str ''x''" "strip (str ''304'') = str ''304''"
    "strip (str ''show-text 0 a'') = str ''show-text 0 a''" "strip (str ''y'') = str ''y''"
    by (simp_all add: strip_def lstrip_def rstrip_def isspace_def str_def)
  have nl: "\<not> lookup_6623_match (str ''x'')" "\<not> lookup_6623_match (str ''304'')"
    "\<not> lookup_6623_match (str ''show-text 0 a'')" "\<not> lookup_6623_match (str ''y'')"
    by (simp_all add: lookup_6623_match_def match_lit_def startswith_def str_def)
  have mk: "\<not> is_box_start (str ''x'') ?fn" "is_box_start (str ''304'') ?fn"
    "\<not> is_box_start (str ''show-text 0 a'') ?fn" "\<not> is_box_start (str ''y'') ?fn"
    by (simp_all add: is_box_start_def str_def)
  have tc: "is_text_cmd (str ''show-text 0 a'')" "\<not> is_text_cmd (str ''y'')"
    by (simp_all add: is_text_cmd_def TEXT_CMDS_def startswith_def str_def)
  have sw: "startswith (str ''show-text 0 a'') (str ''show-text'')"
    by (simp add: startswith_def str_def)
  have jt: "join_text [str ''show-text 0 a''] = []"
    by (simp add: join_text_def lstrip_def isspace_def startswith_def show_re_at_def
          match_lit_def match_ws1_def str_def)
  let ?S1 = "init_state\<lparr>after_u := True, buf := [str ''304''], start_idx := 1\<rparr>"
  let ?S2 = "?S1\<lparr>in_box := True, buf := [str ''304'', str ''show-text 0 a'']\<rparr>"
  have s0: "scan_step Map.empty ?fn ?L 0 (str ''x'') init_state = Inr init_state"
    by (simp add: scan_step_def box_machine_def sx nl mk track_speaker_idle init_state_def)
  have s1: "scan_step Map.empty ?fn ?L 1 (str ''304'') init_state = Inr ?S1"
    by (simp add: scan_step_def box_machine_def confirm_start_def py_index_def sx nl mk sw
          track_speaker_idle init_state_def)
  have s2: "scan_step Map.empty ?fn ?L 2 (str ''show-text 0 a'') ?S1 = Inr ?S2"
    by (simp add: scan_step_def box_machine_def sx nl mk tc track_speaker_idle init_state_def)
  let ?S3 = "\<lparr>boxes = [\<lparr>tb_idx = 1, tb_speaker = str ''Narrator'', tb_offset = 1, tb_jp_text = [],
                   tb_raw = [str ''304'', str ''show-text 0 a'']\<rparr>],
       pending_speaker = None, waiting_mov = False, in_box = False, after_u = False, buf = [],
       start_idx = - 1, last_end = 2, spans = [(1, 2)]\<rparr>"
  have s3: "scan_step Map.empty ?fn ?L 3 (str ''y'') ?S2 = Inr ?S3"
    by (simp add: scan_step_def box_machine_def close_def speaker_name_of_def jt sx nl mk tc
          track_speaker_idle init_state_def)
  have c: "close Map.empty 3 ?S3 = ?S3" by (simp add: close_def)
  show ?thesis using s0 s1 s2 s3 c by (simp add: scan_def)
qed


text \<open>
  C7. \<open>extract_boxes\<close> returns the boxes of the final state of the scan. Each has an
  offset \<open>>= 0\<close>; its raw buffer is the lines of the script from its start position
  to its end position; the first box's offset is its start position, and the offset of
  every later box is its start position minus the end position of the box before it.
\<close>

theorem extract_boxes_offsets:
  assumes "scan name_map file_name lines = Inr s"
  shows "extract_boxes name_map file_name lines = Inr (boxes s) \<and>
         length (spans s) = length (boxes s) \<and>
         (\<forall>k < length (boxes s).
            0 \<le> tb_offset (boxes s ! k) \<and>
            tb_offset (boxes s ! k) =
              fst (spans s ! k) - (if k = 0 then 0 else snd (spans s ! (k - 1))) \<and>
            0 \<le> fst (spans s ! k) \<and> fst (spans s ! k) < snd (spans s ! k) \<and>
            snd (spans s ! k) < int (length lines) \<and>
            tb_raw (boxes s ! k) = slice lines (fst (spans s ! k)) (snd (spans s ! k) + 1))"
proof -
  from scan_emitted [OF assms] have em: "emitted_ok lines file_name (boxes s) (spans s)" .
  have "extract_boxes name_map file_name lines = Inr (boxes s)"
    using assms by (simp add: extract_boxes_def)
  moreover have "length (spans s) = length (boxes s)" using em by (simp add: emitted_ok_def)
  moreover have "0 \<le> tb_offset (boxes s ! k) \<and>
            tb_offset (boxes s ! k) =
              fst (spans s ! k) - (if k = 0 then 0 else snd (spans s ! (k - 1))) \<and>
            0 \<le> fst (spans s ! k) \<and> fst (spans s ! k) < snd (spans s ! k) \<and>
            snd (spans s ! k) < int (length lines) \<and>
            tb_raw (boxes s ! k) = slice lines (fst (spans s ! k)) (snd (spans s ! k) + 1)"
    if k: "k < length (boxes s)" for k
  proof -
    from em k have "span_ok lines file_name (prev_end (spans s) k) (boxes s ! k) (spans s ! k)"
      by (simp add: emitted_ok_def)
    then show ?thesis unfolding span_ok_def prev_end_def by blast
  qed
  ultimately show ?thesis by blast
qed

theorem extract_boxes_offsets_witness:
  "\<exists>s. scan Map.empty (str ''SC0001'')
          [str ''x'', str ''304'', str ''show-text 0 a'', str ''y''] = Inr s \<and>
       spans s = [(1, 2)] \<and> map tb_offset (boxes s) = [1] \<and>
       map tb_raw (boxes s) = [[str ''304'', str ''show-text 0 a'']]"
proof -
  let ?S = "\<lparr>boxes = [\<lparr>tb_idx = 1, tb_speaker = str ''Narrator'', tb_offset = 1, tb_jp_text = [],
                   tb_raw = [str ''304'', str ''show-text 0 a'']\<rparr>],
       pending_speaker = None, waiting_mov = False, in_box = False, after_u = False, buf = [],
       start_idx = - 1, last_end = 2, spans = [(1, 2)]\<rparr>"
  from extract_boxes_offsets [OF scan_example]
  have "length (spans ?S) = length (boxes ?S)"
    and "\<forall>k < length (boxes ?S). tb_offset (boxes ?S ! k) =
           fst (spans ?S ! k) - (if k = 0 then 0 else snd (spans ?S ! (k - 1)))"
    by blast+
  then show ?thesis using scan_example by (intro exI [of _ ?S]) simp
qed

text \<open>
  C6. Every box \<open>extract_boxes\<close> returns begins at a marker line that is followed, in
  the script, by a line that starts with \<open>show-text\<close> and is a text command, and that
  marker line is the first line of its raw buffer. So a marker line whose next line is
  not such a \<open>show-text\<close> line is the start of no box.
\<close>

theorem extract_boxes_confirmed_start:
  assumes "scan name_map file_name lines = Inr s"
  shows "extract_boxes name_map file_name lines = Inr (boxes s) \<and>
         length (spans s) = length (boxes s) \<and>
         (\<forall>k < length (boxes s).
            nat (fst (spans s ! k)) + 1 < length lines \<and>
            tb_raw (boxes s ! k) \<noteq> [] \<and>
            hd (tb_raw (boxes s ! k)) = lines ! nat (fst (spans s ! k)) \<and>
            is_box_start (strip (lines ! nat (fst (spans s ! k)))) file_name \<and>
            startswith (lines ! (nat (fst (spans s ! k)) + 1)) (str ''show-text'') \<and>
            is_text_cmd (strip (lines ! (nat (fst (spans s ! k)) + 1)))) \<and>
         (\<forall>i. is_box_start (strip (lines ! i)) file_name \<and>
              (\<not> startswith (lines ! (i + 1)) (str ''show-text'') \<or>
               \<not> is_text_cmd (strip (lines ! (i + 1)))) \<longrightarrow>
              (\<forall>k < length (boxes s). fst (spans s ! k) \<noteq> int i))"
proof -
  from scan_emitted [OF assms] have em: "emitted_ok lines file_name (boxes s) (spans s)" .
  have ex: "extract_boxes name_map file_name lines = Inr (boxes s)"
    using assms by (simp add: extract_boxes_def)
  have len: "length (spans s) = length (boxes s)" using em by (simp add: emitted_ok_def)
  have each: "nat (fst (spans s ! k)) + 1 < length lines \<and>
            tb_raw (boxes s ! k) \<noteq> [] \<and>
            hd (tb_raw (boxes s ! k)) = lines ! nat (fst (spans s ! k)) \<and>
            is_box_start (strip (lines ! nat (fst (spans s ! k)))) file_name \<and>
            startswith (lines ! (nat (fst (spans s ! k)) + 1)) (str ''show-text'') \<and>
            is_text_cmd (strip (lines ! (nat (fst (spans s ! k)) + 1)))"
    if k: "k < length (boxes s)" for k
  proof -
    let ?st = "fst (spans s ! k)" and ?en = "snd (spans s ! k)"
    from em k have so: "span_ok lines file_name (prev_end (spans s) k) (boxes s ! k) (spans s ! k)"
      by (simp add: emitted_ok_def)
    then have p: "0 \<le> ?st" "?st < ?en" "?en < int (length lines)"
      "tb_raw (boxes s ! k) = slice lines ?st (?en + 1)"
      "is_box_start (strip (lines ! nat ?st)) file_name"
      "startswith (lines ! nat (?st + 1)) (str ''show-text'')"
      "is_text_cmd (strip (lines ! nat (?st + 1)))"
      by (simp_all add: span_ok_def)
    have lt: "nat ?st + 1 < length lines" using p(1-3) by linarith
    have raw: "tb_raw (boxes s ! k) = take (nat (?en + 1) - nat ?st) (drop (nat ?st) lines)"
      using p(1-4) by (simp add: slice_nat)
    have "0 < nat (?en + 1) - nat ?st" using p(1,2) by linarith
    then obtain n where n: "nat (?en + 1) - nat ?st = Suc n"
      by (cases "nat (?en + 1) - nat ?st") auto
    have "nat ?st < length lines" using lt by simp
    then have "drop (nat ?st) lines = lines ! nat ?st # drop (Suc (nat ?st)) lines"
      by (simp add: Cons_nth_drop_Suc)
    with raw n have r2: "tb_raw (boxes s ! k) = lines ! nat ?st # take n (drop (Suc (nat ?st)) lines)"
      by simp
    then have ne: "tb_raw (boxes s ! k) \<noteq> []"
      and h: "hd (tb_raw (boxes s ! k)) = lines ! nat ?st"
      by simp_all
    have "nat (?st + 1) = nat ?st + 1" using p(1) by simp
    with p(6,7) have "startswith (lines ! (nat ?st + 1)) (str ''show-text'')"
      and "is_text_cmd (strip (lines ! (nat ?st + 1)))" by simp_all
    with lt ne h p(5) show ?thesis by simp
  qed
  have none: "fst (spans s ! k) \<noteq> int i"
    if "is_box_start (strip (lines ! i)) file_name \<and>
        (\<not> startswith (lines ! (i + 1)) (str ''show-text'') \<or>
         \<not> is_text_cmd (strip (lines ! (i + 1))))" and "k < length (boxes s)" for i k
  proof
    assume "fst (spans s ! k) = int i"
    with each [OF that(2)] have "startswith (lines ! (i + 1)) (str ''show-text'')"
      and "is_text_cmd (strip (lines ! (i + 1)))" by simp_all
    with that(1) show False by simp
  qed
  from ex len each none show ?thesis by blast
qed

theorem extract_boxes_confirmed_start_witness:
  "\<exists>s. scan Map.empty (str ''SC0001'')
          [str ''x'', str ''304'', str ''show-text 0 a'', str ''y''] = Inr s \<and>
       length (boxes s) = 1 \<and> fst (spans s ! 0) = 1 \<and>
       hd (tb_raw (boxes s ! 0)) = str ''304'' \<and>
       startswith (str ''show-text 0 a'') (str ''show-text'')"
proof -
  let ?L = "[str ''x'', str ''304'', str ''show-text 0 a'', str ''y'']"
  let ?S = "\<lparr>boxes = [\<lparr>tb_idx = 1, tb_speaker = str ''Narrator'', tb_offset = 1, tb_jp_text = [],
                   tb_raw = [str ''304'', str ''show-text 0 a'']\<rparr>],
       pending_speaker = None, waiting_mov = False, in_box = False, after_u = False, buf = [],
       start_idx = - 1, last_end = 2, spans = [(1, 2)]\<rparr>"
  from extract_boxes_confirmed_start [OF scan_example]
  have all: "\<forall>k < length (boxes ?S).
       startswith (?L ! (nat (fst (spans ?S ! k)) + 1)) (str ''show-text'')"
    by blast
  from all [rule_format, of 0] have "startswith (str ''show-text 0 a'') (str ''show-text'')"
    by simp
  with scan_example show ?thesis by (intro exI [of _ ?S]) simp
qed

end
